theory Spec2Isabelle
  imports Main
begin

section \<open>Strings and characters\<close>

text \<open>
  Python strings are sequences of code points. The model uses \<^typ>\<open>string\<close>, whose
  characters are the code points 0 to 255 (Latin-1); the character classes below are the
  ones Python 3 uses on that range: \<open>str.isspace\<close> (also the class \<open>\s\<close> of \<open>re\<close>),
  the decimal digits \<open>\d\<close>, \<open>[a-zA-Z]\<close>, the word characters \<open>\w\<close>
  (\<open>str.isalnum\<close> or underscore) and \<open>str.lower\<close>.
\<close>

definition is_space :: "char \<Rightarrow> bool" where
  "is_space c =
     (let n = (of_char c :: nat)
      in (9 \<le> n \<and> n \<le> 13) \<or> (28 \<le> n \<and> n \<le> 32) \<or> n = 133 \<or> n = 160)"

definition is_digit :: "char \<Rightarrow> bool" where
  "is_digit c = (let n = (of_char c :: nat) in 48 \<le> n \<and> n \<le> 57)"

definition is_ascii_alpha :: "char \<Rightarrow> bool" where
  "is_ascii_alpha c =
     (let n = (of_char c :: nat) in (65 \<le> n \<and> n \<le> 90) \<or> (97 \<le> n \<and> n \<le> 122))"

definition is_word_char :: "char \<Rightarrow> bool" where
  "is_word_char c =
     (let n = (of_char c :: nat)
      in is_digit c \<or> is_ascii_alpha c \<or> n = 95 \<or> n = 170 \<or> n = 178 \<or> n = 179
         \<or> n = 181 \<or> n = 185 \<or> n = 186 \<or> (188 \<le> n \<and> n \<le> 190)
         \<or> (192 \<le> n \<and> n \<le> 214) \<or> (216 \<le> n \<and> n \<le> 246) \<or> 248 \<le> n)"

definition lower_char :: "char \<Rightarrow> char" where
  "lower_char c =
     (let n = (of_char c :: nat)
      in if (65 \<le> n \<and> n \<le> 90) \<or> (192 \<le> n \<and> n \<le> 222 \<and> n \<noteq> 215)
         then char_of (n + 32) else c)"

text \<open>\<open>str.lower()\<close>, \<open>str.strip()\<close>, \<open>str.split()\<close>, \<open>sub in s\<close>, \<open>s.endswith(suf)\<close>,
  \<open>s.startswith(pre)\<close>.\<close>

definition lower :: "string \<Rightarrow> string" where
  "lower s = map lower_char s"

definition strip :: "string \<Rightarrow> string" where
  "strip s = rev (dropWhile is_space (rev (dropWhile is_space s)))"

fun split_aux :: "string \<Rightarrow> string \<Rightarrow> string list" where
  "split_aux w [] = (if w = [] then [] else [w])"
| "split_aux w (c # cs) =
     (if is_space c then (if w = [] then split_aux [] cs else w # split_aux [] cs)
      else split_aux (w @ [c]) cs)"

definition split :: "string \<Rightarrow> string list" where
  "split s = split_aux [] s"

fun startswith :: "string \<Rightarrow> string \<Rightarrow> bool" where
  "startswith s [] = True"
| "startswith [] (p # ps) = False"
| "startswith (c # cs) (p # ps) = (c = p \<and> startswith cs ps)"

fun contains :: "string \<Rightarrow> string \<Rightarrow> bool" where
  "contains sub [] = (sub = [])"
| "contains sub (c # cs) = (startswith (c # cs) sub \<or> contains sub cs)"

definition endswith :: "string \<Rightarrow> string \<Rightarrow> bool" where
  "endswith s suf = startswith (rev s) (rev suf)"

subsection \<open>Integers and their decimal text\<close>

text \<open>
  \<open>str(n)\<close> of an integer, and \<open>int(s)\<close>: surrounding whitespace is stripped, one sign
  is allowed, single underscores may separate digits; anything else raises \<open>ValueError\<close>
  (\<open>None\<close>). The whitespace \<open>int\<close> strips is not quite that of \<open>str.strip\<close>: the four
  separators 28 to 31 are not part of it.

  CPython bounds the conversions between integers and decimal text. The bound is
  \<open>sys.get_int_max_str_digits()\<close>: 4300 unless the interpreter is configured otherwise,
  0 for none (an interpreter older than 3.11 without the security patch has none), never
  below 640 otherwise. \<open>int(s)\<close> raises \<open>ValueError\<close> when \<open>s\<close> holds more digit characters
  than the bound; leading zeros count, the sign, the underscores and the stripped
  whitespace do not. \<open>str(n)\<close>, an f-string and the JSON encoder raise \<open>ValueError\<close> when
  the numeral of \<open>n\<close> has more digits than the bound, and the JSON decoder does on such a
  numeral. The bound is the parameter \<open>max_digits\<close> of every function that converts.
  \<open>fits\<close> says that \<open>str(n)\<close> succeeds; its value is then \<open>str_int n\<close>.
\<close>

definition over_limit :: "nat \<Rightarrow> nat \<Rightarrow> bool" where
  "over_limit max_digits n = (0 < max_digits \<and> max_digits < n)"

definition is_int_space :: "char \<Rightarrow> bool" where
  "is_int_space c =
     (let n = (of_char c :: nat) in (9 \<le> n \<and> n \<le> 13) \<or> n = 32 \<or> n = 133 \<or> n = 160)"

definition int_strip :: "string \<Rightarrow> string" where
  "int_strip s = rev (dropWhile is_int_space (rev (dropWhile is_int_space s)))"

definition digit_char :: "nat \<Rightarrow> char" where
  "digit_char d = char_of (48 + d)"

fun str_nat :: "nat \<Rightarrow> string" where
  "str_nat n = (if n < 10 then [digit_char n] else str_nat (n div 10) @ [digit_char (n mod 10)])"

declare str_nat.simps [simp del]

definition str_int :: "int \<Rightarrow> string" where
  "str_int i = (if i < 0 then CHR ''-'' # str_nat (nat (- i)) else str_nat (nat i))"

definition digit_val :: "char \<Rightarrow> nat" where
  "digit_val c = of_char c - 48"

definition digits_value :: "string \<Rightarrow> nat" where
  "digits_value ds = foldl (\<lambda>acc c. 10 * acc + digit_val c) 0 ds"

fun valid_digits :: "bool \<Rightarrow> string \<Rightarrow> bool" where
  "valid_digits prev_digit [] = prev_digit"
| "valid_digits prev_digit (c # cs) =
     (if is_digit c then valid_digits True cs
      else if c = CHR ''_'' then prev_digit \<and> valid_digits False cs
      else False)"

definition fits :: "nat \<Rightarrow> int \<Rightarrow> bool" where
  "fits max_digits i = (\<not> over_limit max_digits (length (str_nat (nat \<bar>i\<bar>))))"

definition python_int :: "nat \<Rightarrow> string \<Rightarrow> int option" where
  "python_int max_digits s =
     (let t = int_strip s;
          (neg, body) = (case t of
               c # r \<Rightarrow> if c = CHR ''-'' then (True, r) else if c = CHR ''+'' then (False, r)
                        else (False, t)
             | [] \<Rightarrow> (False, t));
          ds = filter is_digit body
      in if valid_digits False body \<and> \<not> over_limit max_digits (length ds)
         then (let v = int (digits_value ds) in Some (if neg then - v else v))
         else None)"

text \<open>\<open>str(xs)\<close> of a list of integers: \<open>[0, 1, 2]\<close>.\<close>

fun join_ints :: "int list \<Rightarrow> string" where
  "join_ints [] = []"
| "join_ints [x] = str_int x"
| "join_ints (x # y # ys) = str_int x @ '', '' @ join_ints (y # ys)"

definition str_int_list :: "int list \<Rightarrow> string" where
  "str_int_list xs = ''['' @ join_ints xs @ '']''"

section \<open>The regular expressions of the source\<close>

subsection \<open>\<open>re.split(r'\s+(AND|OR|NOT)\s+', query)\<close>\<close>

text \<open>
  \<open>match_sep s\<close> matches the pattern at the head of \<open>s\<close>: a greedy run of whitespace,
  one of the three operators, a greedy run of whitespace; it returns the operator (the
  captured group) and the text after the match. A shorter first run cannot help (the next
  character would be whitespace), so no backtracking is needed.
  \<open>re_split_aux\<close> searches for the leftmost match from every position: the text before a
  match closes the current piece, the operator follows it in the result, and the search
  goes on after the match.
\<close>

definition match_operator :: "string \<Rightarrow> (string \<times> string) option" where
  "match_operator s =
     (if startswith s ''AND'' then Some (''AND'', drop 3 s)
      else if startswith s ''OR'' then Some (''OR'', drop 2 s)
      else if startswith s ''NOT'' then Some (''NOT'', drop 3 s)
      else None)"

definition match_sep :: "string \<Rightarrow> (string \<times> string) option" where
  "match_sep s =
     (case s of
        [] \<Rightarrow> None
      | c # cs \<Rightarrow>
          if is_space c then
            (case match_operator (dropWhile is_space s) of
               None \<Rightarrow> None
             | Some (opr, r) \<Rightarrow>
                 (case r of
                    [] \<Rightarrow> None
                  | d # ds \<Rightarrow> if is_space d then Some (opr, dropWhile is_space r) else None))
          else None)"

function re_split_aux :: "string \<Rightarrow> string \<Rightarrow> string list" where
  "re_split_aux piece [] = [piece]"
| "re_split_aux piece (c # cs) =
     (case match_sep (c # cs) of
        Some (opr, rest) \<Rightarrow> piece # opr # re_split_aux [] rest
      | None \<Rightarrow> re_split_aux (piece @ [c]) cs)"
  by pat_completeness auto
termination
proof (relation "measure (\<lambda>(piece, s). length s)")
  show "wf (measure (\<lambda>(piece, s). length s))" by simp
next
  fix piece :: string and c cs
  show "((piece @ [c], cs), (piece, c # cs)) \<in> measure (\<lambda>(piece, s). length s)" by simp
next
  fix piece :: string and c cs x2 opr rest
  assume m: "match_sep (c # cs) = Some x2" and x: "(opr, rest) = x2"
  define s where "s = dropWhile is_space (c # cs)"
  have a: "length s \<le> length (c # cs)"
    unfolding s_def by (rule length_dropWhile_le)
  from m x obtain r where mo: "match_operator s = Some (opr, r)"
    and rest: "rest = dropWhile is_space r"
    unfolding match_sep_def s_def [symmetric]
    by (auto simp del: dropWhile.simps split: if_splits option.splits list.splits)
  from mo have ne: "s \<noteq> []"
    by (cases s) (auto simp: match_operator_def split: if_splits)
  with mo have "length r < length s"
    by (auto simp: match_operator_def split: if_splits)
  moreover have "length rest \<le> length r"
    unfolding rest by (rule length_dropWhile_le)
  ultimately have "length rest < length (c # cs)"
    using a by linarith
  then show "(([], rest), (piece, c # cs)) \<in> measure (\<lambda>(piece, s). length s)" by simp
qed

definition re_split :: "string \<Rightarrow> string list" where
  "re_split s = re_split_aux [] s"

subsection \<open>\<open>re.match(r'(.*?)\s+(/\s*(\d+))$', query)\<close>\<close>

text \<open>
  \<open>match_tail r\<close> matches \<open>\s+(/\s*(\d+))$\<close> at the head of \<open>r\<close> and returns group 3, the
  digits: a whitespace run, the slash, a whitespace run, a run of digits, then the end of
  the string or a single final newline (where \<open>$\<close> also matches). Each run is greedy, and
  giving characters back never helps.
  \<open>lazy_prefix\<close> is the lazy group 1: the shortest prefix, free of newlines (which \<open>.\<close> does
  not match), after which the tail matches.
\<close>

definition newline :: char where
  "newline = CHR 0x0A"

definition match_tail :: "string \<Rightarrow> string option" where
  "match_tail r =
     (case r of
        [] \<Rightarrow> None
      | c # cs \<Rightarrow>
          if is_space c then
            (case dropWhile is_space r of
               [] \<Rightarrow> None
             | d # r1 \<Rightarrow>
                 if d = CHR ''/'' then
                   (let r2 = dropWhile is_space r1;
                        ds = takeWhile is_digit r2;
                        r3 = dropWhile is_digit r2
                    in if ds \<noteq> [] \<and> (r3 = [] \<or> r3 = [newline]) then Some ds else None)
                 else None)
          else None)"

fun lazy_prefix :: "string \<Rightarrow> string \<Rightarrow> (string \<times> string) option" where
  "lazy_prefix acc [] = None"
| "lazy_prefix acc (c # cs) =
     (case match_tail (c # cs) of
        Some ds \<Rightarrow> Some (acc, ds)
      | None \<Rightarrow> if c = newline then None else lazy_prefix (acc @ [c]) cs)"

definition re_match_proximity :: "string \<Rightarrow> (string \<times> string) option" where
  "re_match_proximity query = lazy_prefix [] query"

subsection \<open>\<open>re.findall(r'\b[a-zA-Z]+\b', text)\<close>\<close>

text \<open>
  \<open>prev\<close> tells whether the character before the current position is a word character.
  A match starts where the previous character is not a word character, takes the greedy
  run of letters and needs a word boundary after it; a shorter run would end between two
  letters, where there is no boundary. The search goes on after a match, or one
  character further when there is none.
\<close>

function findall_words :: "bool \<Rightarrow> string \<Rightarrow> string list" where
  "findall_words prev [] = []"
| "findall_words prev (c # cs) =
     (let run = takeWhile is_ascii_alpha (c # cs);
          rest = dropWhile is_ascii_alpha (c # cs)
      in if \<not> prev \<and> run \<noteq> [] \<and> (case rest of [] \<Rightarrow> True | d # ds \<Rightarrow> \<not> is_word_char d)
         then run # findall_words True rest
         else findall_words (is_word_char c) cs)"
  by pat_completeness auto
termination
proof (relation "measure (\<lambda>(prev, s). length s)")
  show "wf (measure (\<lambda>(prev, s). length s))" by simp
next
  fix prev :: bool and c cs run rest
  assume r: "run = takeWhile is_ascii_alpha (c # cs)"
    and d: "rest = dropWhile is_ascii_alpha (c # cs)"
    and g: "\<not> prev \<and> run \<noteq> [] \<and> (case rest of [] \<Rightarrow> True | d # ds \<Rightarrow> \<not> is_word_char d)"
  from r g have "is_ascii_alpha c" by (auto split: if_splits)
  with d have "rest = dropWhile is_ascii_alpha cs" by simp
  then have "length rest \<le> length cs" by (simp add: length_dropWhile_le)
  then show "((True, rest), (prev, c # cs)) \<in> measure (\<lambda>(prev, s). length s)" by simp
next
  fix prev :: bool and c cs run rest
  show "((is_word_char c, cs), (prev, c # cs)) \<in> measure (\<lambda>(prev, s). length s)" by simp
qed

definition findall :: "string \<Rightarrow> string list" where
  "findall s = findall_words False s"

section \<open>Dictionaries\<close>

text \<open>
  A Python \<open>dict\<close> keeps its keys in insertion order: it is modelled as an association
  list. \<^term>\<open>map_of\<close> is the lookup, \<open>dict_set\<close> is \<open>d[k] = v\<close> (the value is replaced
  in place, or the key appended), \<open>dict_get_default\<close> is \<open>d.get(k, default)\<close>, which never
  creates a key, and \<open>dd_getitem\<close> is \<open>d[k]\<close> on a \<open>defaultdict\<close>: a missing key is created
  with the default value, so reading returns the dictionary too. \<open>dict_comp\<close> is a
  dictionary comprehension.
\<close>

type_synonym ('k, 'v) dict = "('k \<times> 'v) list"

fun dict_set :: "'k \<Rightarrow> 'v \<Rightarrow> ('k, 'v) dict \<Rightarrow> ('k, 'v) dict" where
  "dict_set k v [] = [(k, v)]"
| "dict_set k v (p # ps) = (if fst p = k then (k, v) # ps else p # dict_set k v ps)"

definition dict_get_default :: "('k, 'v) dict \<Rightarrow> 'k \<Rightarrow> 'v \<Rightarrow> 'v" where
  "dict_get_default d k dflt = (case map_of d k of Some v \<Rightarrow> v | None \<Rightarrow> dflt)"

definition dd_getitem :: "'v \<Rightarrow> ('k, 'v) dict \<Rightarrow> 'k \<Rightarrow> 'v \<times> ('k, 'v) dict" where
  "dd_getitem dflt d k =
     (case map_of d k of Some v \<Rightarrow> (v, d) | None \<Rightarrow> (dflt, d @ [(k, dflt)]))"

definition dict_comp :: "('a \<Rightarrow> 'k \<times> 'v) \<Rightarrow> 'a list \<Rightarrow> ('k, 'v) dict" where
  "dict_comp f xs = foldl (\<lambda>d x. dict_set (fst (f x)) (snd (f x)) d) [] xs"

section \<open>The retrieval engine\<close>

text \<open>
  The fields of \<open>InformationRetrievalSystem\<close>. The stemmer (\<open>self.stemmer.stem\<close>, NLTK's
  Porter stemmer) and the built-in \<open>hash\<close> are external: every function below takes them
  as the parameters \<open>stem\<close> and \<open>hash\<close>. Document ids and positions are Python integers.
\<close>

type_synonym inverted = "(string, int list) dict"
type_synonym positional = "(string, (int, int list) dict) dict"

record engine =
  docs_folder :: string
  stop_words :: "string set"
  inverted_index :: inverted
  positional_index :: positional
  doc_ids :: "(int, string) dict"

definition init_engine :: "string \<Rightarrow> string set \<Rightarrow> engine" where
  "init_engine folder stops =
     \<lparr>docs_folder = folder, stop_words = stops, inverted_index = [],
      positional_index = [], doc_ids = []\<rparr>"

subsection \<open>\<open>_preprocess_text\<close>\<close>

definition preprocess_text :: "(string \<Rightarrow> string) \<Rightarrow> engine \<Rightarrow> string \<Rightarrow> (string \<times> int) list" where
  "preprocess_text stem e text =
     (let tokens = findall (lower text)
      in map (\<lambda>(pos, token). (stem token, int pos))
           (filter (\<lambda>(pos, token). token \<notin> stop_words e) (enumerate 0 tokens)))"

subsection \<open>The loop of \<open>_build_indexes\<close>\<close>

text \<open>
  \<open>add_position\<close> is \<open>self.positional_index[term][doc_id].append(position)\<close> and
  \<open>add_posting\<close> is \<open>self.inverted_index[term].append(doc_id)\<close>, both on default
  dictionaries. \<open>index_document\<close> is the body of the \<open>try\<close> after the document was read.
  Python iterates the set \<open>terms_in_doc\<close> in an unspecified order; the model takes the
  terms in the order of their first occurrence. Each iteration touches the posting list
  of its own term only, so the order decides nothing but where new keys are placed in
  the dictionary.
\<close>

definition add_position :: "positional \<Rightarrow> string \<Rightarrow> int \<Rightarrow> int \<Rightarrow> positional" where
  "add_position pidx term doc_id position =
     (let (inner, pidx1) = dd_getitem [] pidx term;
          (ps, inner1) = dd_getitem [] inner doc_id
      in dict_set term (dict_set doc_id (ps @ [position]) inner1) pidx1)"

definition add_posting :: "inverted \<Rightarrow> string \<Rightarrow> int \<Rightarrow> inverted" where
  "add_posting iidx term doc_id =
     (let (ps, iidx1) = dd_getitem [] iidx term
      in dict_set term (ps @ [doc_id]) iidx1)"

definition index_document ::
  "(string \<Rightarrow> string) \<Rightarrow> engine \<Rightarrow> int \<Rightarrow> string \<Rightarrow> string \<Rightarrow> engine" where
  "index_document stem e doc_id filename content =
     (let e1 = e\<lparr>doc_ids := dict_set doc_id filename (doc_ids e)\<rparr>;
          preprocessed_tokens = preprocess_text stem e1 content;
          pidx = foldl (\<lambda>p (term, position). add_position p term doc_id position)
                   (positional_index e1) preprocessed_tokens;
          terms_in_doc = remdups (map fst preprocessed_tokens);
          iidx = foldl (\<lambda>i term. add_posting i term doc_id) (inverted_index e1) terms_in_doc
      in e1\<lparr>positional_index := pidx, inverted_index := iidx\<rparr>)"

text \<open>
  The corpus is the list \<open>os.listdir\<close> returns, each name with what \<open>_read_document\<close>
  gives for it: the text, or \<open>None\<close> when it raises. The loop state carries
  \<open>processed_docs\<close> and the names in \<open>failed_docs\<close>.
\<close>

type_synonym corpus = "(string \<times> string option) list"

definition build_step ::
  "(string \<Rightarrow> string) \<Rightarrow> engine \<times> nat \<times> string list \<Rightarrow> nat \<times> string \<times> string option
     \<Rightarrow> engine \<times> nat \<times> string list" where
  "build_step stem st entry =
     (case st of (e, processed_docs, failed_docs) \<Rightarrow>
      case entry of (doc_id, filename, content) \<Rightarrow>
        if \<not> endswith filename ''.txt'' then (e, processed_docs, failed_docs)
        else (case content of
                None \<Rightarrow> (e, processed_docs, failed_docs @ [filename])
              | Some text \<Rightarrow>
                  (index_document stem e (int doc_id) filename text,
                   processed_docs + 1, failed_docs)))"

definition build_loop ::
  "(string \<Rightarrow> string) \<Rightarrow> engine \<Rightarrow> corpus \<Rightarrow> engine \<times> nat \<times> string list" where
  "build_loop stem e listing = foldl (build_step stem) (e, 0, []) (enumerate 0 listing)"

subsection \<open>\<open>_save_indexes\<close> and \<open>_load_indexes\<close>\<close>

text \<open>
  The snapshot is the value \<open>index_data\<close> that \<open>json.dump\<close> writes and \<open>json.load\<close> reads
  back: objects are dictionaries with string keys. The file \<open>indexes.json\<close> is missing,
  or holds no JSON value (\<open>Unparsable\<close>), or holds the JSON text of a snapshot, which
  \<open>json.load\<close> returns as \<open>json.dump\<close> was given it when its numbers are within the bound
  on conversions. A file of another shape is not modelled. \<open>now\<close> is
  \<open>str(datetime.datetime.now())\<close>.
\<close>

record doc_info =
  json_filename :: string
  json_path :: string

record term_info =
  document_frequency :: nat
  postings :: "int list"

record metadata =
  total_documents :: nat
  total_terms :: nat
  created_at :: string

record snapshot =
  json_metadata :: metadata
  document_mapping :: "(string, doc_info) dict"
  json_inverted_index :: "(string, term_info) dict"
  json_positional_index :: "(string, (string, int list) dict) dict"

datatype py_error = ValueError | RecursionError

datatype snapshot_file = Missing | Unparsable | Stored snapshot

definition path_join :: "string \<Rightarrow> string \<Rightarrow> string" where
  "path_join a b =
     (if startswith b ''/'' then b
      else if a = [] \<or> endswith a ''/'' then a @ b
      else a @ ''/'' @ b)"

text \<open>
  \<open>index_data\<close> is the dictionary \<open>_save_indexes\<close> builds, when every \<open>str(doc_id)\<close> in it
  succeeds; \<open>keys_fit\<close> says that they all do. Otherwise \<open>ValueError\<close> leaves
  \<open>_save_indexes\<close> before the file is opened.
\<close>

definition index_data :: "string \<Rightarrow> engine \<Rightarrow> snapshot" where
  "index_data now e =
     \<lparr>json_metadata =
        \<lparr>total_documents = length (doc_ids e), total_terms = length (inverted_index e),
         created_at = now\<rparr>,
      document_mapping =
        dict_comp (\<lambda>(doc_id, filename).
            (str_int doc_id,
             \<lparr>json_filename = filename, json_path = path_join (docs_folder e) filename\<rparr>))
          (doc_ids e),
      json_inverted_index =
        dict_comp (\<lambda>(term, ps). (term, \<lparr>document_frequency = length ps, postings = ps\<rparr>))
          (inverted_index e),
      json_positional_index =
        dict_comp (\<lambda>(term, inner).
            (term, dict_comp (\<lambda>(doc_id, positions). (str_int doc_id, positions)) inner))
          (positional_index e)\<rparr>"

definition keys_fit :: "nat \<Rightarrow> engine \<Rightarrow> bool" where
  "keys_fit max_digits e =
     (list_all (\<lambda>(doc_id, filename). fits max_digits doc_id) (doc_ids e) \<and>
      list_all (\<lambda>(term, inner). list_all (\<lambda>(doc_id, positions). fits max_digits doc_id) inner)
        (positional_index e))"

text \<open>
  The numbers of a snapshot are its counts and the members of its posting and position
  lists: \<open>counts_fit\<close> and \<open>lists_fit\<close> say that they are within the bound. \<open>json.load\<close>
  raises on a file with a number that is not. \<open>json.dump\<close> raises, inside the \<open>try\<close> of
  \<open>_save_indexes\<close>, on a member of a list that is not, and leaves the part of the text it
  had written, which is no JSON value: the file is \<open>Unparsable\<close>. The counts it writes are
  lengths of Python containers, which are below \<open>2 ^ 63\<close> and within every bound.
\<close>

definition counts_fit :: "nat \<Rightarrow> snapshot \<Rightarrow> bool" where
  "counts_fit max_digits data =
     (fits max_digits (int (total_documents (json_metadata data))) \<and>
      fits max_digits (int (total_terms (json_metadata data))) \<and>
      list_all (\<lambda>(term, info). fits max_digits (int (document_frequency info)))
        (json_inverted_index data))"

definition lists_fit :: "nat \<Rightarrow> snapshot \<Rightarrow> bool" where
  "lists_fit max_digits data =
     (list_all (\<lambda>(term, info). list_all (fits max_digits) (postings info))
        (json_inverted_index data) \<and>
      list_all (\<lambda>(term, inner). list_all (\<lambda>(k, positions). list_all (fits max_digits) positions) inner)
        (json_positional_index data))"

definition save_indexes :: "nat \<Rightarrow> string \<Rightarrow> engine \<Rightarrow> py_error + snapshot_file" where
  "save_indexes max_digits now e =
     (if \<not> keys_fit max_digits e then Inl ValueError
      else Inr (if lists_fit max_digits (index_data now e) then Stored (index_data now e)
                else Unparsable))"

text \<open>
  \<open>load_doc_ids\<close> is the comprehension \<open>{int(doc_id): info['filename'] ...}\<close>: when
  \<open>int\<close> raises, nothing has been assigned yet. The two loops over the positional index
  assign \<open>self.positional_index[term][int(doc_id)] = positions\<close>; Python evaluates
  \<open>self.positional_index[term]\<close>, which creates the term, before \<open>int(doc_id)\<close>, so a
  failure leaves what was stored so far. \<open>load_indexes\<close> is \<open>_load_indexes\<close> after
  \<open>json.load\<close> has returned the snapshot: it returns the engine as the exception leaves
  it, or as the load completes it.
\<close>

fun load_doc_ids ::
  "nat \<Rightarrow> (int, string) dict \<Rightarrow> (string, doc_info) dict \<Rightarrow> (int, string) dict option" where
  "load_doc_ids max_digits acc [] = Some acc"
| "load_doc_ids max_digits acc ((k, info) # rest) =
     (case python_int max_digits k of
        None \<Rightarrow> None
      | Some doc_id \<Rightarrow> load_doc_ids max_digits (dict_set doc_id (json_filename info) acc) rest)"

fun load_positions_inner ::
  "nat \<Rightarrow> positional \<Rightarrow> string \<Rightarrow> (string, int list) dict \<Rightarrow> positional \<times> bool" where
  "load_positions_inner max_digits pidx term [] = (pidx, True)"
| "load_positions_inner max_digits pidx term ((k, positions) # rest) =
     (let (inner, pidx1) = dd_getitem [] pidx term
      in case python_int max_digits k of
           None \<Rightarrow> (pidx1, False)
         | Some doc_id \<Rightarrow>
             load_positions_inner max_digits
               (dict_set term (dict_set doc_id positions inner) pidx1) term rest)"

fun load_positions ::
  "nat \<Rightarrow> positional \<Rightarrow> (string, (string, int list) dict) dict \<Rightarrow> positional \<times> bool" where
  "load_positions max_digits pidx [] = (pidx, True)"
| "load_positions max_digits pidx ((term, ps) # rest) =
     (case load_positions_inner max_digits pidx term ps of
        (pidx1, True) \<Rightarrow> load_positions max_digits pidx1 rest
      | (pidx1, False) \<Rightarrow> (pidx1, False))"

definition load_indexes :: "nat \<Rightarrow> engine \<Rightarrow> snapshot \<Rightarrow> (py_error \<times> engine) + engine" where
  "load_indexes max_digits e data =
     (case load_doc_ids max_digits [] (document_mapping data) of
        None \<Rightarrow> Inl (ValueError, e)
      | Some dm \<Rightarrow>
          (let e1 = e\<lparr>doc_ids := dm\<rparr>;
               e2 = e1\<lparr>inverted_index :=
                      foldl (\<lambda>d (term, info). dict_set term (postings info) d) []
                        (json_inverted_index data)\<rparr>
           in case load_positions max_digits [] (json_positional_index data) of
                (pidx, True) \<Rightarrow> Inr (e2\<lparr>positional_index := pidx\<rparr>)
              | (pidx, False) \<Rightarrow> Inl (ValueError, e2\<lparr>positional_index := pidx\<rparr>)))"

text \<open>
  \<open>_build_indexes\<close>: the file \<open>indexes.json\<close> is missing, or cannot be parsed, or holds
  a snapshot. A snapshot that loads is used as it is. After a load that failed, in
  \<open>json.load\<close> or later, the loop runs on the engine as the failure left it, and the
  result is saved. The function returns the engine and the content of the file
  afterwards, or the exception that \<open>_save_indexes\<close> raises.
\<close>

definition build_indexes ::
  "nat \<Rightarrow> (string \<Rightarrow> string) \<Rightarrow> string \<Rightarrow> engine \<Rightarrow> snapshot_file \<Rightarrow> corpus
     \<Rightarrow> py_error + engine \<times> snapshot_file" where
  "build_indexes max_digits stem now e file listing =
     (let scratch = (\<lambda>e0. (let e1 = fst (build_loop stem e0 listing)
                           in case save_indexes max_digits now e1 of
                                Inl err \<Rightarrow> Inl err
                              | Inr file1 \<Rightarrow> Inr (e1, file1)))
      in case file of
           Missing \<Rightarrow> scratch e
         | Unparsable \<Rightarrow> scratch e
         | Stored data \<Rightarrow>
             if counts_fit max_digits data \<and> lists_fit max_digits data
             then (case load_indexes max_digits e data of
                     Inr e' \<Rightarrow> Inr (e', file)
                   | Inl (err, e') \<Rightarrow> scratch e')
             else scratch e)"

subsection \<open>Boolean queries\<close>

text \<open>
  \<open>postings_of\<close> is \<open>self.inverted_index.get(stemmed_term, [])\<close>. A Python \<open>set\<close> of
  document ids is a HOL set, and \<open>sorted(list(result))\<close> is \<^term>\<open>sorted_list_of_set\<close>.
  \<open>boolean_loop\<close> is the \<open>while\<close> loop of \<open>_process_boolean_query\<close> over the tokens after
  the first: it reads an operator and a term, stops at an empty or missing term, and
  leaves the result as it is for a token that is no operator. \<open>flat_boolean_query\<close> is
  the body of \<open>_process_boolean_query\<close> after its test for an opening bracket.
\<close>

definition postings_of :: "engine \<Rightarrow> string \<Rightarrow> int list" where
  "postings_of e t = dict_get_default (inverted_index e) t []"

fun boolean_loop :: "(string \<Rightarrow> string) \<Rightarrow> engine \<Rightarrow> int set \<Rightarrow> string list \<Rightarrow> int set" where
  "boolean_loop stem e result [] = result"
| "boolean_loop stem e result [operator] = result"
| "boolean_loop stem e result (operator # t # rest) =
     (let term = lower t
      in if term = [] then result
         else (let term_docs = set (postings_of e (stem term))
               in boolean_loop stem e
                    (if operator = ''AND'' then result \<inter> term_docs
                     else if operator = ''OR'' then result \<union> term_docs
                     else if operator = ''NOT'' then result - term_docs
                     else result)
                    rest))"

definition flat_boolean_query :: "(string \<Rightarrow> string) \<Rightarrow> engine \<Rightarrow> string \<Rightarrow> int list" where
  "flat_boolean_query stem e query =
     (case re_split query of
        [] \<Rightarrow> []
      | [t] \<Rightarrow> sort (postings_of e (stem (lower t)))
      | t # rest \<Rightarrow>
          sorted_list_of_set
            (boolean_loop stem e (set (postings_of e (stem (lower t)))) rest))"

text \<open>
  \<open>find_group\<close> is the scan of \<open>_process_bracketed_query\<close>: it pushes the index of every
  opening bracket and stops at the first closing bracket met with a non-empty stack,
  giving \<open>start\<close> and \<open>end\<close>. \<open>bracketed_loop\<close> is the second \<open>while\<close> loop, where the
  placeholder stands for the result of the inner expression.
\<close>

fun find_group :: "nat list \<Rightarrow> nat \<Rightarrow> string \<Rightarrow> (nat \<times> nat) option" where
  "find_group stack i [] = None"
| "find_group stack i (c # cs) =
     (if c = CHR ''('' then find_group (i # stack) (i + 1) cs
      else if c = CHR '')'' \<and> stack \<noteq> [] then Some (hd stack, i)
      else find_group stack (i + 1) cs)"

fun bracketed_loop ::
  "(string \<Rightarrow> string) \<Rightarrow> engine \<Rightarrow> string \<Rightarrow> int list \<Rightarrow> int set \<Rightarrow> string list \<Rightarrow> int set" where
  "bracketed_loop stem e placeholder inner_result result [] = result"
| "bracketed_loop stem e placeholder inner_result result [operator] = result"
| "bracketed_loop stem e placeholder inner_result result (operator # term # rest) =
     (if term = [] then result
      else (let term_docs = (if term = placeholder then set inner_result
                             else set (postings_of e (stem (lower term))))
            in bracketed_loop stem e placeholder inner_result
                 (if operator = ''AND'' then result \<inter> term_docs
                  else if operator = ''OR'' then result \<union> term_docs
                  else if operator = ''NOT'' then result - term_docs
                  else result)
                 rest))"

text \<open>
  \<open>_process_boolean_query\<close> and \<open>_process_bracketed_query\<close> call each other. A query with
  an opening bracket that no closing bracket follows is handed back and forth between
  them unchanged, until Python raises \<open>RecursionError\<close>: the model is a partial function
  whose value there is \<open>None\<close>. The interpreter's bound on the depth of a recursion
  that does end is not modelled. In \<open>process_bracketed_query\<close> the calls of
  \<open>_process_boolean_query\<close> are written with the test it starts with. The placeholder
  needs \<open>str(inner_result)\<close>, and the test of \<open>final_result\<close> the text of its only
  member: \<open>ValueError\<close> is raised when a document id there is not within the bound.
  The value of \<open>hash\<close> is a machine integer, whose text is within every bound.
\<close>

partial_function (option) process_bracketed_query ::
  "nat \<Rightarrow> (string \<Rightarrow> string) \<Rightarrow> (string \<Rightarrow> int) \<Rightarrow> engine \<Rightarrow> string
     \<Rightarrow> (py_error + int list) option" where
  "process_bracketed_query max_digits stem hash e query =
     (if \<not> contains ''('' query then Some (Inr (flat_boolean_query stem e query))
      else (case find_group [] 0 query of
              None \<Rightarrow> process_bracketed_query max_digits stem hash e query
            | Some (start, end) \<Rightarrow>
                (let inner_expr = strip (take (end - (start + 1)) (drop (start + 1) query))
                 in Option.bind
                      (if contains ''('' inner_expr
                       then process_bracketed_query max_digits stem hash e inner_expr
                       else Some (Inr (flat_boolean_query stem e inner_expr)))
                      (\<lambda>inner.
                        (case inner of
                           Inl err \<Rightarrow> Some (Inl err)
                         | Inr inner_result \<Rightarrow>
                             (if \<not> list_all (fits max_digits) inner_result
                              then Some (Inl ValueError)
                              else
                                (let placeholder =
                                       ''RESULT_'' @ str_int (hash (str_int_list inner_result));
                                     new_query =
                                       take start query @ placeholder @ drop (end + 1) query
                                 in Option.bind
                                      (process_bracketed_query max_digits stem hash e new_query)
                                      (\<lambda>final.
                                        (case final of
                                           Inl err \<Rightarrow> Some (Inl err)
                                         | Inr final_result \<Rightarrow>
                                             (if length final_result = 1
                                                 \<and> \<not> fits max_digits (hd final_result)
                                              then Some (Inl ValueError)
                                              else if length final_result = 1
                                                 \<and> startswith (str_int (hd final_result)) ''RESULT_''
                                              then Some (Inr inner_result)
                                              else (case re_split new_query of
                                                      [] \<Rightarrow> Some (Inr [])
                                                    | t # rest \<Rightarrow>
                                                        Some (Inr (sorted_list_of_set
                                                          (bracketed_loop stem e placeholder
                                                             inner_result
                                                             (if t = placeholder
                                                              then set inner_result
                                                              else set (postings_of e
                                                                     (stem (lower t))))
                                                             rest))))))))))))))"

declare process_bracketed_query.simps [code]

definition process_boolean_query ::
  "nat \<Rightarrow> (string \<Rightarrow> string) \<Rightarrow> (string \<Rightarrow> int) \<Rightarrow> engine \<Rightarrow> string
     \<Rightarrow> (py_error + int list) option" where
  "process_boolean_query max_digits stem hash e query =
     (if contains ''('' query then process_bracketed_query max_digits stem hash e query
      else Some (Inr (flat_boolean_query stem e query)))"

subsection \<open>Proximity queries\<close>

text \<open>
  \<open>pos_getitem\<close> is the read \<open>self.positional_index[term][doc_id]\<close> through the two
  default dictionaries: a missing term or document is created, and the inner dictionary
  lives in the outer one, so the engine's index is returned with the list.
  \<open>proximity_step\<close> is the body of the loop over \<open>common_docs\<close>: the two nested loops with
  their \<open>break\<close>s append the document once when some pair of positions is within \<open>k\<close>.
  Python iterates the set \<open>common_docs\<close> in an unspecified order; the model takes the
  ascending one, and the result is sorted at the end.
\<close>

definition pos_getitem :: "positional \<Rightarrow> string \<Rightarrow> int \<Rightarrow> int list \<times> positional" where
  "pos_getitem pidx term doc_id =
     (let (inner, pidx1) = dd_getitem [] pidx term;
          (ps, inner1) = dd_getitem [] inner doc_id
      in (ps, dict_set term inner1 pidx1))"

definition within :: "int \<Rightarrow> int list \<Rightarrow> int list \<Rightarrow> bool" where
  "within k positions1 positions2 =
     list_ex (\<lambda>pos1. list_ex (\<lambda>pos2. \<bar>pos1 - pos2\<bar> \<le> k) positions2) positions1"

definition proximity_step ::
  "string \<Rightarrow> string \<Rightarrow> int \<Rightarrow> positional \<times> int list \<Rightarrow> int \<Rightarrow> positional \<times> int list" where
  "proximity_step s1 s2 k st doc_id =
     (case st of (pidx, result_docs) \<Rightarrow>
        (let (positions1, pidx1) = pos_getitem pidx s1 doc_id;
             (positions2, pidx2) = pos_getitem pidx1 s2 doc_id
         in (pidx2, if within k positions1 positions2 then result_docs @ [doc_id]
                    else result_docs)))"

definition invalid_format :: string where
  "invalid_format =
     ''Invalid proximity query format. Use '' @ [CHR 0x27] @ ''term1 term2 /k'' @ [CHR 0x27]"

definition only_two_terms :: string where
  "only_two_terms =
     ''Proximity query supports only 2 terms. Use '' @ [CHR 0x27] @ ''term1 term2 /k''
       @ [CHR 0x27]"

text \<open>The result of a query: the engine afterwards, the lines printed, and the list
  returned or the exception raised.\<close>

type_synonym outcome = "engine \<times> string list \<times> (py_error + int list)"

definition process_proximity_query ::
  "nat \<Rightarrow> (string \<Rightarrow> string) \<Rightarrow> engine \<Rightarrow> string \<Rightarrow> outcome" where
  "process_proximity_query max_digits stem e query =
     (case re_match_proximity query of
        None \<Rightarrow> (e, [invalid_format], Inr [])
      | Some (terms_part, digits) \<Rightarrow>
          (case python_int max_digits digits of
             None \<Rightarrow> (e, [], Inl ValueError)
           | Some k \<Rightarrow>
               (case split (lower terms_part) of
                  [term1, term2] \<Rightarrow>
                    (let s1 = stem term1; s2 = stem term2;
                         docs_term1 = set (postings_of e s1);
                         docs_term2 = set (postings_of e s2);
                         common_docs = docs_term1 \<inter> docs_term2;
                         (pidx, result_docs) =
                            foldl (proximity_step s1 s2 k) (positional_index e, [])
                              (sorted_list_of_set common_docs)
                     in (e\<lparr>positional_index := pidx\<rparr>, [], Inr (sort result_docs)))
                | _ \<Rightarrow> (e, [only_two_terms], Inr []))))"

subsection \<open>\<open>process_query\<close>\<close>

definition process_query ::
  "nat \<Rightarrow> (string \<Rightarrow> string) \<Rightarrow> (string \<Rightarrow> int) \<Rightarrow> engine \<Rightarrow> string \<Rightarrow> outcome" where
  "process_query max_digits stem hash e query =
     (if contains ''/'' query then process_proximity_query max_digits stem e query
      else if contains '' AND '' query \<or> contains '' OR '' query \<or> contains ''NOT '' query
      then (e, [],
            case process_boolean_query max_digits stem hash e query of
              None \<Rightarrow> Inl RecursionError
            | Some r \<Rightarrow> r)
      else (e, [], Inr (sort (postings_of e (stem (lower (strip query)))))))"

section \<open>Notions used in the statements\<close>

subsection \<open>Reading the indexes\<close>

text \<open>
  \<open>position_list\<close> reads the positional index at a term and a document without creating
  anything, and \<open>positions_at\<close> is the list the proximity evaluator gets there: empty
  where the index has none. \<open>token_positions\<close> lists, for a text and a stem, the indexes
  in the full token sequence of the text at which a token that is no stop word has that
  stem.
\<close>

definition position_list :: "positional \<Rightarrow> string \<Rightarrow> int \<Rightarrow> int list option" where
  "position_list pidx t d = (case map_of pidx t of None \<Rightarrow> None | Some inner \<Rightarrow> map_of inner d)"

definition olist :: "'a list option \<Rightarrow> 'a list" where
  "olist x = (case x of None \<Rightarrow> [] | Some xs \<Rightarrow> xs)"

definition nonempty :: "'a list \<Rightarrow> 'a list option" where
  "nonempty xs = (if xs = [] then None else Some xs)"

definition positions_at :: "positional \<Rightarrow> string \<Rightarrow> int \<Rightarrow> int list" where
  "positions_at pidx t d = olist (position_list pidx t d)"

definition token_positions :: "(string \<Rightarrow> string) \<Rightarrow> string set \<Rightarrow> string \<Rightarrow> string \<Rightarrow> int list" where
  "token_positions stem stops text t =
     map (\<lambda>(pos, token). int pos)
       (filter (\<lambda>(pos, token). token \<notin> stops \<and> stem token = t)
          (enumerate 0 (findall (lower text))))"

subsection \<open>The documents of a listing\<close>

text \<open>
  \<open>docs_of_entries\<close> keeps, of a numbered directory listing, the entries the loop of
  \<open>_build_indexes\<close> indexes: those with the document extension whose text could be read.
  \<open>index_doc\<close> is \<open>index_document\<close> on such an entry.
\<close>

definition docs_of_entries :: "(nat \<times> string \<times> string option) list \<Rightarrow> (int \<times> string \<times> string) list" where
  "docs_of_entries entries =
     concat (map (\<lambda>(i, filename, content).
                    case content of
                      Some text \<Rightarrow> if endswith filename ''.txt'' then [(int i, filename, text)] else []
                    | None \<Rightarrow> [])
        entries)"

definition indexed_docs :: "corpus \<Rightarrow> (int \<times> string \<times> string) list" where
  "indexed_docs listing = docs_of_entries (enumerate 0 listing)"

definition index_doc :: "(string \<Rightarrow> string) \<Rightarrow> engine \<Rightarrow> int \<times> string \<times> string \<Rightarrow> engine" where
  "index_doc stem e doc = (case doc of (d, filename, text) \<Rightarrow> index_document stem e d filename text)"

subsection \<open>Engines\<close>

text \<open>
  An association list stands for a Python dictionary when its keys are distinct.
  \<open>dict_ok\<close> says so of the document map, of both indexes and of every inner dictionary
  of the positional index. \<open>backed\<close>: every document id in a posting list of a stem has
  an entry, under that stem, in the positional index. \<open>ints_fit\<close>: every document id and
  every position the engine holds is within the bound on conversions; with no bound
  (\<open>max_digits = 0\<close>) every engine is such.
\<close>

definition dict_ok :: "engine \<Rightarrow> bool" where
  "dict_ok e =
     (distinct (map fst (doc_ids e)) \<and> distinct (map fst (inverted_index e)) \<and>
      distinct (map fst (positional_index e)) \<and>
      list_all (\<lambda>(t, inner). distinct (map fst inner)) (positional_index e))"

definition pidx_ok :: "positional \<Rightarrow> bool" where
  "pidx_ok p = (distinct (map fst p) \<and> list_all (\<lambda>(t, inner). distinct (map fst inner)) p)"

definition backed :: "engine \<Rightarrow> bool" where
  "backed e =
     list_all (\<lambda>t. list_all (\<lambda>d. position_list (positional_index e) t d \<noteq> None) (postings_of e t))
       (map fst (inverted_index e))"

definition pidx_fits :: "nat \<Rightarrow> positional \<Rightarrow> bool" where
  "pidx_fits max_digits p =
     list_all (\<lambda>(t, inner).
                 list_all (\<lambda>(d, ps). fits max_digits d \<and> list_all (fits max_digits) ps) inner) p"

definition ints_fit :: "nat \<Rightarrow> engine \<Rightarrow> bool" where
  "ints_fit max_digits e =
     (list_all (\<lambda>(d, filename). fits max_digits d) (doc_ids e) \<and>
      list_all (\<lambda>(t, ps). list_all (fits max_digits) ps) (inverted_index e) \<and>
      pidx_fits max_digits (positional_index e))"

subsection \<open>Proximity queries\<close>

text \<open>
  The two-term form of a proximity query, written out: a first term, blanks, a second
  term, blanks, the slash, blanks or nothing, a run of digits, then the end of the text
  or one final newline; blanks may come first. \<open>plain_term\<close>: a non-empty term free of
  whitespace. \<open>blanks\<close>: whitespace characters only. \<open>line_blanks\<close>: whitespace other than
  the newline, which the pattern of the source does not let through before the second
  term. \<open>digit_run\<close>: a non-empty run of decimal digits.
  \<open>two_term_grammar\<close> is the reading of the same form by the source: its pattern matches
  and the text before the slash splits into exactly two terms; the two agree.
  \<open>near\<close>: some pair of positions of the two stems in the document is at most \<open>k\<close> apart.
\<close>

definition plain_term :: "string \<Rightarrow> bool" where
  "plain_term t = (t \<noteq> [] \<and> list_all (\<lambda>c. \<not> is_space c) t)"

definition blanks :: "string \<Rightarrow> bool" where
  "blanks ws = list_all is_space ws"

definition line_blanks :: "string \<Rightarrow> bool" where
  "line_blanks ws = list_all (\<lambda>c. is_space c \<and> c \<noteq> newline) ws"

definition digit_run :: "string \<Rightarrow> bool" where
  "digit_run ds = (ds \<noteq> [] \<and> list_all is_digit ds)"

definition two_term_grammar :: "string \<Rightarrow> bool" where
  "two_term_grammar query =
     (case re_match_proximity query of
        None \<Rightarrow> False
      | Some (terms_part, digits) \<Rightarrow> length (split (lower terms_part)) = 2)"

definition near :: "engine \<Rightarrow> int \<Rightarrow> string \<Rightarrow> string \<Rightarrow> int \<Rightarrow> bool" where
  "near e k s1 s2 d =
     (\<exists>p1\<in>set (positions_at (positional_index e) s1 d).
        \<exists>p2\<in>set (positions_at (positional_index e) s2 d). \<bar>p1 - p2\<bar> \<le> k)"

subsection \<open>Readings of the specification\<close>

text \<open>
  \<open>consecutive_ids\<close>: the document ids of the document map are 0, 1, 2, ... without a
  gap. \<open>retained_positions\<close>: the positions of a stem counted among the tokens that are
  left after the stop words were removed. \<open>has_operator_word\<close>: one of the
  whitespace-delimited words of the query is an operator. \<open>left_to_right\<close> follows the
  words of the specification: the running result is updated by each pair of an operator
  and a term, \<open>AND\<close> by intersection, \<open>OR\<close> by union, \<open>NOT\<close> by difference, with no
  precedence; \<open>spec_boolean\<close> applies it to the split of a query and sorts.
\<close>

definition consecutive_ids :: "engine \<Rightarrow> bool" where
  "consecutive_ids e = (map fst (doc_ids e) = map int [0..<length (doc_ids e)])"

definition retained_positions :: "(string \<Rightarrow> string) \<Rightarrow> string set \<Rightarrow> string \<Rightarrow> string \<Rightarrow> int list" where
  "retained_positions stem stops text t =
     map (\<lambda>(pos, token). int pos)
       (filter (\<lambda>(pos, token). stem token = t)
          (enumerate 0 (filter (\<lambda>token. token \<notin> stops) (findall (lower text)))))"

definition has_operator_word :: "string \<Rightarrow> bool" where
  "has_operator_word query =
     list_ex (\<lambda>w. w = ''AND'' \<or> w = ''OR'' \<or> w = ''NOT'') (split query)"

definition apply_operator :: "string \<Rightarrow> int set \<Rightarrow> int set \<Rightarrow> int set" where
  "apply_operator opr result term_docs =
     (if opr = ''AND'' then result \<inter> term_docs
      else if opr = ''OR'' then result \<union> term_docs
      else if opr = ''NOT'' then result - term_docs
      else result)"

fun left_to_right :: "(string \<Rightarrow> int set) \<Rightarrow> int set \<Rightarrow> string list \<Rightarrow> int set" where
  "left_to_right docs result (opr # term # rest) =
     left_to_right docs (apply_operator opr result (docs term)) rest"
| "left_to_right docs result rest = result"

definition spec_boolean :: "(string \<Rightarrow> string) \<Rightarrow> engine \<Rightarrow> string \<Rightarrow> int list" where
  "spec_boolean stem e query =
     (case re_split query of
        [] \<Rightarrow> []
      | t # rest \<Rightarrow>
          sorted_list_of_set
            (left_to_right (\<lambda>term. set (postings_of e (stem (lower term))))
               (set (postings_of e (stem (lower t)))) rest))"

section \<open>Example inputs\<close>

text \<open>
  The engine built from the two example documents of the specification; an engine whose
  only document holds the word \<open>knot\<close>; a query whose operator stands between two tab
  characters.
\<close>

definition example_engine :: engine where
  "example_engine =
     fst (build_loop id (init_engine ''Abstracts'' {''a'', ''for'', ''of''})
       [(''1.txt'', Some ''deep learning models for image restoration''),
        (''2.txt'', Some ''a survey of time series classification'')])"

definition knot_engine :: engine where
  "knot_engine =
     fst (build_loop id (init_engine ''Abstracts'' {}) [(''1.txt'', Some ''knot theory'')])"

definition tab_query :: string where
  "tab_query = ''deep'' @ [CHR 0x09] @ ''AND'' @ [CHR 0x09] @ ''learning''"

text \<open>
  The engine built from one document with the words \<open>deep\<close> and \<open>model\<close>, which the
  Porter stemmer leaves as they are. A snapshot whose inverted index lists document 0
  for these two stems while its positional index is empty, with the engine
  \<open>_load_indexes\<close> makes of it; and a snapshot with a document key in its positional
  index that is no number. \<open>ones n\<close>: a run of \<open>n\<close> digits 1; 4301 of them are one more
  than the interpreter converts unless it is configured otherwise.
\<close>

definition model_engine :: engine where
  "model_engine =
     fst (build_loop id (init_engine ''Abstracts'' {}) [(''1.txt'', Some ''deep model'')])"

definition ones :: "nat \<Rightarrow> string" where
  "ones n = replicate n CHR ''1''"

definition stale_snapshot :: snapshot where
  "stale_snapshot =
     \<lparr>json_metadata = \<lparr>total_documents = 1, total_terms = 2, created_at = ''''\<rparr>,
      document_mapping = [(''0'', \<lparr>json_filename = ''1.txt'', json_path = ''Abstracts/1.txt''\<rparr>)],
      json_inverted_index =
        [(''deep'', \<lparr>document_frequency = 1, postings = [0]\<rparr>),
         (''model'', \<lparr>document_frequency = 1, postings = [0]\<rparr>)],
      json_positional_index = []\<rparr>"

definition stale_engine :: engine where
  "stale_engine =
     \<lparr>docs_folder = ''Abstracts'', stop_words = {},
      inverted_index = [(''deep'', [0]), (''model'', [0])],
      positional_index = [], doc_ids = [(0, ''1.txt'')]\<rparr>"

definition broken_snapshot :: snapshot where
  "broken_snapshot =
     \<lparr>json_metadata = \<lparr>total_documents = 1, total_terms = 1, created_at = ''''\<rparr>,
      document_mapping = [(''0'', \<lparr>json_filename = ''1.txt'', json_path = ''Abstracts/1.txt''\<rparr>)],
      json_inverted_index = [(''deep'', \<lparr>document_frequency = 1, postings = [0]\<rparr>)],
      json_positional_index = [(''deep'', [(''x'', [0])])]\<rparr>"

section \<open>Properties\<close>

subsection \<open>Decimal text\<close>

lemma digit_not_space: "is_digit c \<Longrightarrow> \<not> is_space c"
  by (auto simp: is_digit_def is_space_def Let_def)

lemma digit_not_int_space: "is_digit c \<Longrightarrow> \<not> is_int_space c"
  by (auto simp: is_digit_def is_int_space_def Let_def)

lemma int_strip_id:
  "s \<noteq> [] \<Longrightarrow> \<not> is_int_space (hd s) \<Longrightarrow> \<not> is_int_space (last s) \<Longrightarrow> int_strip s = s"
proof -
  assume a: "s \<noteq> []" "\<not> is_int_space (hd s)" "\<not> is_int_space (last s)"
  then have 1: "dropWhile is_int_space s = s" by (cases s) auto
  from a have 2: "dropWhile is_int_space (rev s) = rev s"
    by (cases "rev s") (auto simp: last_rev [symmetric] hd_rev)
  show ?thesis by (simp add: int_strip_def 1 2)
qed

lemma valid_digits_all: "\<forall>c\<in>set ds. is_digit c \<Longrightarrow> valid_digits b ds = (ds = [] \<longrightarrow> b)"
  by (induction ds arbitrary: b) auto

lemma over_limit_none: "\<not> over_limit 0 n"
  by (simp add: over_limit_def)

lemma over_limit_mono: "over_limit m n \<Longrightarrow> n \<le> n' \<Longrightarrow> over_limit m n'"
  by (auto simp: over_limit_def)

lemma fits_none: "fits 0 i"
  by (simp add: fits_def over_limit_none)

text \<open>\<open>int\<close> on a run of digits: the value, unless the run is longer than the bound.\<close>

lemma python_int_digits:
  assumes "ds \<noteq> []" "\<forall>c\<in>set ds. is_digit c"
  shows "python_int max_digits ds =
           (if over_limit max_digits (length ds) then None else Some (int (digits_value ds)))"
proof -
  from assms have h: "is_digit (hd ds)" "is_digit (last ds)" by auto
  then have s: "int_strip ds = ds"
    using assms(1) by (intro int_strip_id) (auto dest: digit_not_int_space)
  obtain c r where ds: "ds = c # r" using assms(1) by (cases ds) auto
  with h have c: "is_digit c" by simp
  then have n: "c \<noteq> CHR ''-''" "c \<noteq> CHR ''+''" by (auto simp: is_digit_def)
  have f: "filter is_digit (c # r) = c # r" using assms(2) ds by (simp add: filter_id_conv)
  have v: "valid_digits False (c # r)" using assms ds by (simp add: valid_digits_all)
  show ?thesis
    unfolding python_int_def s unfolding ds using n v f c by (simp add: Let_def)
qed

lemma str_nat_digits: "str_nat k \<noteq> [] \<and> (\<forall>c\<in>set (str_nat k). is_digit c)"
proof (induction k rule: str_nat.induct)
  case (1 n)
  have d: "is_digit (digit_char m)" if "m < 10" for m
    using that by (simp add: is_digit_def digit_char_def)
  show ?case
  proof (cases "n < 10")
    case True
    then show ?thesis by (subst (1 2) str_nat.simps) (simp add: d)
  next
    case False
    then show ?thesis using 1 by (subst (1 2) str_nat.simps) (simp add: d)
  qed
qed

lemma digits_value_snoc: "digits_value (ds @ [c]) = 10 * digits_value ds + digit_val c"
  by (simp add: digits_value_def)

lemma digits_value_str_nat: "digits_value (str_nat k) = k"
proof (induction k rule: str_nat.induct)
  case (1 n)
  have d: "digit_val (digit_char m) = m" if "m < 10" for m
    using that by (simp add: digit_val_def digit_char_def)
  show ?case
  proof (cases "n < 10")
    case True
    then show ?thesis by (subst str_nat.simps) (simp add: d digits_value_def)
  next
    case False
    then show ?thesis using 1 by (subst str_nat.simps) (simp add: d digits_value_snoc)
  qed
qed

lemma fits_nat: "fits max_digits (int k) = (\<not> over_limit max_digits (length (str_nat k)))"
  by (simp add: fits_def)

lemma python_int_str_nat:
  "python_int max_digits (str_nat k) = (if fits max_digits (int k) then Some (int k) else None)"
  using str_nat_digits [of k] by (simp add: python_int_digits digits_value_str_nat fits_nat)

lemma python_int_str_int:
  "python_int max_digits (str_int i) = (if fits max_digits i then Some i else None)"
proof (cases "i < 0")
  case False
  then show ?thesis
    using python_int_str_nat [of max_digits "nat i"] by (simp add: str_int_def fits_def)
next
  case True
  let ?ds = "str_nat (nat (- i))"
  have d: "?ds \<noteq> []" "\<forall>c\<in>set ?ds. is_digit c" using str_nat_digits by auto
  then have l: "\<not> is_int_space (last (CHR ''-'' # ?ds))" by (auto dest: digit_not_int_space)
  have h: "\<not> is_int_space (hd (CHR ''-'' # ?ds))" by (simp add: is_int_space_def)
  have s: "int_strip (CHR ''-'' # ?ds) = CHR ''-'' # ?ds"
    using h l by (intro int_strip_id) simp_all
  have f: "filter is_digit ?ds = ?ds" using d(2) by (simp add: filter_id_conv)
  have v: "valid_digits False ?ds" using d by (simp add: valid_digits_all)
  have a: "nat \<bar>i\<bar> = nat (- i)" using True by simp
  show ?thesis
    using True unfolding python_int_def str_int_def fits_def a
    by (simp add: s f v digits_value_str_nat Let_def)
qed

lemma str_int_inj: "inj str_int"
  by (rule inj_on_inverseI [where g = "\<lambda>s. the (python_int 0 s)"])
     (simp add: python_int_str_int fits_none)

text \<open>What \<open>int\<close> returns is within the bound.\<close>

lemma length_str_nat_step:
  "d < 10 \<Longrightarrow> length (str_nat (10 * v + d)) \<le> Suc (length (str_nat v))"
proof -
  assume d: "d < 10"
  show ?thesis
  proof (cases "10 * v + d < 10")
    case True
    then show ?thesis by (subst str_nat.simps) simp
  next
    case False
    have "(10 * v + d) div 10 = v" using d by simp
    with False show ?thesis by (subst str_nat.simps) simp
  qed
qed

lemma length_str_nat_value:
  "\<forall>c\<in>set ds. is_digit c \<Longrightarrow> length (str_nat (digits_value ds)) \<le> max 1 (length ds)"
proof (induction ds rule: rev_induct)
  case Nil
  show ?case by (subst str_nat.simps) (simp add: digits_value_def)
next
  case (snoc c ds)
  then have c: "digit_val c < 10" by (auto simp: is_digit_def digit_val_def Let_def)
  show ?case
  proof (cases "ds = []")
    case True
    then show ?thesis using c by (subst str_nat.simps) (simp add: digits_value_def)
  next
    case False
    have "length (str_nat (digits_value (ds @ [c]))) \<le> Suc (length (str_nat (digits_value ds)))"
      unfolding digits_value_snoc using c by (rule length_str_nat_step)
    also have "\<dots> \<le> Suc (max 1 (length ds))" using snoc by simp
    finally show ?thesis using False by (cases ds) simp_all
  qed
qed

lemma valid_digits_some: "valid_digits b body \<Longrightarrow> b \<or> filter is_digit body \<noteq> []"
  by (induction b body rule: valid_digits.induct) (auto split: if_splits)

lemma python_int_fits: "python_int max_digits s = Some d \<Longrightarrow> fits max_digits d"
proof -
  assume a: "python_int max_digits s = Some d"
  then obtain body where v: "valid_digits False body"
    and o: "\<not> over_limit max_digits (length (filter is_digit body))"
    and d: "\<bar>d\<bar> = int (digits_value (filter is_digit body))"
    by (auto simp: python_int_def Let_def split_beta split: if_splits)
  let ?ds = "filter is_digit body"
  from v have ne: "?ds \<noteq> []" using valid_digits_some by blast
  have "length (str_nat (digits_value ?ds)) \<le> max 1 (length ?ds)"
    by (rule length_str_nat_value) simp
  also have "\<dots> = length ?ds" using ne by (cases ?ds) simp_all
  finally have "\<not> over_limit max_digits (length (str_nat (digits_value ?ds)))"
    using o over_limit_mono by blast
  then show ?thesis by (simp add: fits_def d)
qed

subsection \<open>The proximity pattern\<close>

lemma match_tail_digits:
  "match_tail r = Some ds \<Longrightarrow> ds \<noteq> [] \<and> (\<forall>c\<in>set ds. is_digit c)"
  by (auto simp: match_tail_def Let_def split: list.splits if_splits dest: set_takeWhileD)

lemma lazy_prefix_digits:
  "lazy_prefix acc q = Some (a, ds) \<Longrightarrow> ds \<noteq> [] \<and> (\<forall>c\<in>set ds. is_digit c)"
  by (induction acc q rule: lazy_prefix.induct)
     (auto split: option.splits if_splits dest: match_tail_digits)

lemma re_match_proximity_int:
  "re_match_proximity q = Some (a, ds) \<Longrightarrow>
   python_int max_digits ds =
     (if over_limit max_digits (length ds) then None else Some (int (digits_value ds)))"
  unfolding re_match_proximity_def
  by (drule lazy_prefix_digits) (simp add: python_int_digits)

lemma match_tail_nonspace: "\<not> is_space c \<Longrightarrow> match_tail (c # cs) = None"
  by (simp add: match_tail_def)

lemma newline_space: "is_space newline"
  by (simp add: newline_def is_space_def)

lemma mem_dropWhile: "x \<in> set xs \<Longrightarrow> \<not> P x \<Longrightarrow> x \<in> set (dropWhile P xs)"
  by (induction xs) auto

lemma mem_nonempty: "x \<in> set xs \<Longrightarrow> xs \<noteq> []"
  by auto

lemma mem_not_single: "x \<in> set xs \<Longrightarrow> x \<noteq> y \<Longrightarrow> xs \<noteq> [] \<and> xs \<noteq> [y]"
  by (cases xs) auto

lemma dropWhile_all: "\<forall>x\<in>set xs. P x \<Longrightarrow> dropWhile P (xs @ ys) = dropWhile P ys"
  by (induction xs) auto

lemma takeWhile_all: "\<forall>x\<in>set xs. P x \<Longrightarrow> takeWhile P (xs @ ys) = xs @ takeWhile P ys"
  by (induction xs) auto

lemma match_tail_blank:
  "is_space c \<Longrightarrow> dropWhile is_space (c # cs) = CHR ''/'' # r1 \<Longrightarrow>
   dropWhile is_space r1 = r2 \<Longrightarrow> takeWhile is_digit r2 = ds \<Longrightarrow> dropWhile is_digit r2 = r3 \<Longrightarrow>
   match_tail (c # cs) = (if ds \<noteq> [] \<and> (r3 = [] \<or> r3 = [newline]) then Some ds else None)"
  by (auto simp: match_tail_def Let_def)

lemma match_tail_other:
  "is_space c \<Longrightarrow> dropWhile is_space (c # cs) = d # r1 \<Longrightarrow> d \<noteq> CHR ''/'' \<Longrightarrow>
   match_tail (c # cs) = None"
  by (auto simp: match_tail_def)

text \<open>
  The tail of the pattern does not match where a term is still to come before the
  last slash: after the blanks it needs the slash, and after the slash only blanks and
  digits up to the end.
\<close>

lemma match_tail_slash_later:
  assumes "\<forall>c\<in>set ws. is_space c" and "t \<noteq> []" and "\<not> is_space (hd t)"
    and "CHR ''/'' \<in> set rest"
  shows "match_tail (ws @ t @ rest) = None"
proof -
  obtain d t' where t: "t = d # t'" using assms(2) by (cases t) auto
  with assms(3) have d: "\<not> is_space d" by simp
  have dw: "dropWhile is_space (ws @ t @ rest) = d # t' @ rest"
    using dropWhile_all [OF assms(1), of "t @ rest"] d by (simp add: t)
  show ?thesis
  proof (cases ws)
    case Nil
    then show ?thesis using d by (simp add: t match_tail_nonspace)
  next
    case (Cons c w)
    with assms(1) have c: "is_space c" by simp
    from dw have dw': "dropWhile is_space (c # w @ t @ rest) = d # t' @ rest"
      by (simp add: Cons)
    show ?thesis
    proof (cases "d = CHR ''/''")
      case False
      then show ?thesis using match_tail_other [OF c dw'] by (simp add: Cons)
    next
      case True
      have s: "\<not> is_space CHR ''/''" "\<not> is_digit CHR ''/''" "CHR ''/'' \<noteq> newline"
        by (simp_all add: is_space_def is_digit_def newline_def)
      define r3 where "r3 = dropWhile is_digit (dropWhile is_space (t' @ rest))"
      from assms(4) have "CHR ''/'' \<in> set (t' @ rest)" by simp
      then have "CHR ''/'' \<in> set (dropWhile is_space (t' @ rest))"
        using s(1) by (rule mem_dropWhile)
      then have "CHR ''/'' \<in> set r3"
        unfolding r3_def using s(2) by (rule mem_dropWhile)
      then have r3: "r3 \<noteq> [] \<and> r3 \<noteq> [newline]"
        using s(3) by (rule mem_not_single)
      have "match_tail (c # w @ t @ rest) =
              (if takeWhile is_digit (dropWhile is_space (t' @ rest)) \<noteq> []
                  \<and> (r3 = [] \<or> r3 = [newline])
               then Some (takeWhile is_digit (dropWhile is_space (t' @ rest))) else None)"
        using c dw' [unfolded True] refl refl r3_def [symmetric] by (rule match_tail_blank)
      then show ?thesis using r3 by (simp add: Cons)
    qed
  qed
qed

lemma match_tail_end:
  assumes "ws2 \<noteq> []" and "\<forall>c\<in>set ws2. is_space c" and "\<forall>c\<in>set ws3. is_space c"
    and "ds \<noteq> []" and "\<forall>c\<in>set ds. is_digit c" and "nl = [] \<or> nl = [newline]"
  shows "match_tail (ws2 @ ''/'' @ ws3 @ ds @ nl) = Some ds"
proof -
  obtain c w where ws2: "ws2 = c # w" using assms(1) by (cases ws2) auto
  with assms(2) have c: "is_space c" by simp
  have s: "\<not> is_space CHR ''/''" "\<not> is_digit newline"
    by (simp_all add: is_space_def is_digit_def newline_def)
  obtain d ds' where ds: "ds = d # ds'" using assms(4) by (cases ds) auto
  with assms(5) have d: "\<not> is_space d" by (auto dest: digit_not_space)
  have 1: "dropWhile is_space (c # w @ ''/'' @ ws3 @ ds @ nl) = CHR ''/'' # ws3 @ ds @ nl"
    using dropWhile_all [OF assms(2), of "''/'' @ ws3 @ ds @ nl"] s(1) by (simp add: ws2)
  have 2: "dropWhile is_space (ws3 @ ds @ nl) = ds @ nl"
    using dropWhile_all [OF assms(3), of "ds @ nl"] d by (simp add: ds)
  have n: "takeWhile is_digit nl = []" "dropWhile is_digit nl = nl"
    using assms(6) s(2) by auto
  have 3: "takeWhile is_digit (ds @ nl) = ds"
    using takeWhile_all [OF assms(5), of nl] n by simp
  have 4: "dropWhile is_digit (ds @ nl) = nl"
    using dropWhile_all [OF assms(5), of nl] n by simp
  have "match_tail (c # w @ ''/'' @ ws3 @ ds @ nl) =
          (if ds \<noteq> [] \<and> (nl = [] \<or> nl = [newline]) then Some ds else None)"
    using c 1 2 3 4 by (rule match_tail_blank)
  then show ?thesis using assms(4) assms(6) by (simp add: ws2)
qed

text \<open>
  The lazy group 1 runs over any text that is free of newlines and ends with a
  character that is no blank, when a slash is still to come: the tail of the pattern
  matches nowhere inside it.
\<close>

lemma lazy_prefix_terms:
  assumes "CHR ''/'' \<in> set rest"
  shows "tp \<noteq> [] \<Longrightarrow> \<not> is_space (last tp) \<Longrightarrow> newline \<notin> set tp \<Longrightarrow>
         lazy_prefix acc (tp @ rest) = lazy_prefix (acc @ tp) rest"
proof (induction tp arbitrary: acc)
  case Nil
  then show ?case by simp
next
  case (Cons c tp)
  let ?ws = "takeWhile is_space (c # tp)"
  let ?t = "dropWhile is_space (c # tp)"
  have l: "last (c # tp) \<in> set (c # tp)" by (rule last_in_set) simp
  then have "last (c # tp) \<in> set ?t"
    using Cons.prems(2) by (rule mem_dropWhile)
  then have t: "?t \<noteq> []" by (rule mem_nonempty)
  then have h: "\<not> is_space (hd ?t)" by (rule hd_dropWhile)
  have w: "\<forall>x\<in>set ?ws. is_space x" by (auto dest: set_takeWhileD)
  have "match_tail (?ws @ ?t @ rest) = None"
    using w t h assms by (rule match_tail_slash_later)
  then have m: "match_tail (c # tp @ rest) = None"
    using takeWhile_dropWhile_id [of is_space "c # tp"]
    by (metis append.assoc append_Cons)
  from Cons.prems(3) have nl: "c \<noteq> newline" by auto
  have s: "lazy_prefix acc ((c # tp) @ rest) = lazy_prefix (acc @ [c]) (tp @ rest)"
    using m nl by simp
  show ?case
  proof (cases "tp = []")
    case True
    then show ?thesis using s by simp
  next
    case False
    with Cons.prems have "\<not> is_space (last tp)" "newline \<notin> set tp" by auto
    with False have "lazy_prefix (acc @ [c]) (tp @ rest) = lazy_prefix ((acc @ [c]) @ tp) rest"
      by (rule Cons.IH)
    with s show ?thesis by simp
  qed
qed

text \<open>
  The pattern of \<open>_process_proximity_query\<close> on a text that is free of newlines and does
  not end with a blank, followed by blanks, the slash, blanks or nothing, a run of
  digits, and the end or one final newline: group 1 is the text, group 3 the digits.
\<close>

lemma re_match_form:
  assumes "tp = [] \<or> \<not> is_space (last tp)" and "newline \<notin> set tp"
    and "ws2 \<noteq> []" and "blanks ws2" and "blanks ws3" and "digit_run ds"
    and "nl = [] \<or> nl = [newline]"
  shows "re_match_proximity (tp @ ws2 @ ''/'' @ ws3 @ ds @ nl) = Some (tp, ds)"
proof -
  let ?r = "ws2 @ ''/'' @ ws3 @ ds @ nl"
  from assms(4,5,6) have b: "\<forall>c\<in>set ws2. is_space c" "\<forall>c\<in>set ws3. is_space c"
    "ds \<noteq> []" "\<forall>c\<in>set ds. is_digit c"
    by (simp_all add: blanks_def digit_run_def list_all_iff)
  obtain c w2 where ws2: "ws2 = c # w2" using assms(3) by (cases ws2) auto
  have s: "CHR ''/'' \<in> set ?r" by simp
  have e: "lazy_prefix tp ?r = Some (tp, ds)"
    using match_tail_end [OF assms(3) b assms(7)] by (simp add: ws2)
  show ?thesis
  proof (cases "tp = []")
    case True
    then show ?thesis using e by (simp add: re_match_proximity_def)
  next
    case False
    with assms(1) have "\<not> is_space (last tp)" by simp
    with s False have "lazy_prefix [] (tp @ ?r) = lazy_prefix ([] @ tp) ?r"
      using assms(2) by (rule lazy_prefix_terms)
    then show ?thesis using e by (simp add: re_match_proximity_def)
  qed
qed

lemma re_match_two_term_form:
  assumes "plain_term t1" and "plain_term t2" and "line_blanks ws0" and "line_blanks ws1"
    and "ws2 \<noteq> []" and "blanks ws2" and "blanks ws3" and "digit_run ds"
    and "nl = [] \<or> nl = [newline]"
  shows "re_match_proximity (ws0 @ t1 @ ws1 @ t2 @ ws2 @ ''/'' @ ws3 @ ds @ nl) =
           Some (ws0 @ t1 @ ws1 @ t2, ds)"
proof -
  from assms(1,2) have t: "t2 \<noteq> []" "\<forall>c\<in>set t1. \<not> is_space c" "\<forall>c\<in>set t2. \<not> is_space c"
    by (simp_all add: plain_term_def list_all_iff)
  from assms(3,4) have w: "newline \<notin> set ws0" "newline \<notin> set ws1"
    by (auto simp: line_blanks_def list_all_iff)
  have n: "newline \<notin> set (ws0 @ t1 @ ws1 @ t2)"
    using t(2,3) w newline_space by auto
  have l: "(ws0 @ t1 @ ws1 @ t2) = [] \<or> \<not> is_space (last (ws0 @ t1 @ ws1 @ t2))"
    using t(1,3) by simp
  show ?thesis
    using re_match_form [OF l n assms(5) assms(6) assms(7) assms(8) assms(9)] by simp
qed

subsection \<open>Splitting the terms\<close>

lemma is_space_lower_char: "is_space (lower_char c) = is_space c"
  by (auto simp: lower_char_def is_space_def Let_def)

lemma lower_append: "lower (a @ b) = lower a @ lower b"
  by (simp add: lower_def)

lemma lower_no_space: "\<forall>c\<in>set t. \<not> is_space c \<Longrightarrow> \<forall>c\<in>set (lower t). \<not> is_space c"
  by (auto simp: lower_def is_space_lower_char)

lemma lower_all_space: "\<forall>c\<in>set ws. is_space c \<Longrightarrow> \<forall>c\<in>set (lower ws). is_space c"
  by (auto simp: lower_def is_space_lower_char)

lemma lower_empty: "(lower t = []) = (t = [])"
  by (simp add: lower_def)

lemma split_aux_word:
  "\<forall>c\<in>set x. \<not> is_space c \<Longrightarrow> split_aux w (x @ rest) = split_aux (w @ x) rest"
  by (induction x arbitrary: w) auto

lemma split_aux_blanks: "\<forall>c\<in>set ws. is_space c \<Longrightarrow> split_aux [] (ws @ rest) = split_aux [] rest"
  by (induction ws) auto

lemma split_aux_close:
  "ws \<noteq> [] \<Longrightarrow> \<forall>c\<in>set ws. is_space c \<Longrightarrow> w \<noteq> [] \<Longrightarrow>
   split_aux w (ws @ rest) = w # split_aux [] rest"
  by (cases ws) (auto simp: split_aux_blanks)

lemma split_two_words:
  assumes "t1 \<noteq> []" "t2 \<noteq> []" "\<forall>c\<in>set t1. \<not> is_space c" "\<forall>c\<in>set t2. \<not> is_space c"
    and "\<forall>c\<in>set ws0. is_space c" and "ws1 \<noteq> []" and "\<forall>c\<in>set ws1. is_space c"
  shows "split (ws0 @ t1 @ ws1 @ t2) = [t1, t2]"
proof -
  have "split (ws0 @ t1 @ ws1 @ t2) = split_aux [] (t1 @ ws1 @ t2)"
    unfolding split_def using assms(5) by (rule split_aux_blanks)
  also have "\<dots> = split_aux t1 (ws1 @ t2)"
    using split_aux_word [OF assms(3), of "[]"] by simp
  also have "\<dots> = t1 # split_aux [] (t2 @ [])"
    using split_aux_close [OF assms(6) assms(7) assms(1)] by simp
  also have "split_aux [] (t2 @ []) = split_aux t2 []"
    using split_aux_word [OF assms(4), of "[]" "[]"] by simp
  also have "\<dots> = [t2]" using assms(2) by simp
  finally show ?thesis .
qed

lemma split_lower_two_term_form:
  assumes "plain_term t1" and "plain_term t2" and "line_blanks ws0" and "line_blanks ws1"
    and "ws1 \<noteq> []"
  shows "split (lower (ws0 @ t1 @ ws1 @ t2)) = [lower t1, lower t2]"
proof -
  from assms(1,2) have t: "t1 \<noteq> []" "t2 \<noteq> []" "\<forall>c\<in>set t1. \<not> is_space c"
    "\<forall>c\<in>set t2. \<not> is_space c"
    by (simp_all add: plain_term_def list_all_iff)
  from assms(3,4) have w: "\<forall>c\<in>set ws0. is_space c" "\<forall>c\<in>set ws1. is_space c"
    by (simp_all add: line_blanks_def list_all_iff)
  have "split (lower ws0 @ lower t1 @ lower ws1 @ lower t2) = [lower t1, lower t2]"
    using t w assms(5)
    by (intro split_two_words lower_no_space lower_all_space) (simp_all add: lower_empty)
  then show ?thesis by (simp add: lower_append)
qed

lemma contains_append: "contains sub b \<Longrightarrow> contains sub (a @ b)"
  by (induction a) auto

lemma contains_slash: "contains ''/'' (a @ ''/'' @ b)"
  by (rule contains_append) simp

subsection \<open>The two-term form and the pattern of the source\<close>

text \<open>
  The queries that the source reads as two-term proximity queries (its pattern matches
  and the text before the slash splits into two terms) are exactly the queries of the
  two-term form written out.
\<close>

lemma lazy_prefix_SomeD:
  "lazy_prefix acc q = Some (a, ds) \<Longrightarrow>
   \<exists>p r. a = acc @ p \<and> q = p @ r \<and> match_tail r = Some ds \<and> newline \<notin> set p"
proof (induction acc q rule: lazy_prefix.induct)
  case (1 acc)
  then show ?case by simp
next
  case (2 acc c cs)
  show ?case
  proof (cases "match_tail (c # cs)")
    case (Some ds')
    with "2.prems" have "a = acc @ [] \<and> c # cs = [] @ (c # cs) \<and> match_tail (c # cs) = Some ds
                          \<and> newline \<notin> set []"
      by simp
    then show ?thesis by blast
  next
    case None
    with "2.prems" have n: "c \<noteq> newline" and l: "lazy_prefix (acc @ [c]) cs = Some (a, ds)"
      by (auto split: if_splits)
    from "2.IH" [OF None n l] obtain p r where
      "a = (acc @ [c]) @ p" "cs = p @ r" "match_tail r = Some ds" "newline \<notin> set p"
      by blast
    with n have "a = acc @ (c # p) \<and> c # cs = (c # p) @ r \<and> match_tail r = Some ds
                   \<and> newline \<notin> set (c # p)"
      by simp
    then show ?thesis by blast
  qed
qed

lemma match_tail_empty: "match_tail [] = None"
  by (simp add: match_tail_def)

lemma match_tail_no_slash:
  "is_space c \<Longrightarrow> dropWhile is_space (c # cs) = [] \<Longrightarrow> match_tail (c # cs) = None"
  by (simp add: match_tail_def del: dropWhile_eq_Nil_conv)

lemma match_tail_SomeD:
  assumes "match_tail r = Some ds"
  shows "\<exists>ws2 ws3 nl. r = ws2 @ ''/'' @ ws3 @ ds @ nl \<and> ws2 \<noteq> [] \<and> blanks ws2 \<and> blanks ws3
           \<and> digit_run ds \<and> (nl = [] \<or> nl = [newline])"
proof -
  obtain c cs where r: "r = c # cs" using assms match_tail_empty by (cases r) auto
  have c: "is_space c" using assms match_tail_nonspace [of c cs] by (auto simp: r)
  obtain d r1 where dw: "dropWhile is_space (c # cs) = d # r1"
    using assms match_tail_no_slash [OF c] by (cases "dropWhile is_space (c # cs)") (auto simp: r)
  have d: "d = CHR ''/''" using assms match_tail_other [OF c dw] by (auto simp: r)
  define r2 where "r2 = dropWhile is_space r1"
  define r3 where "r3 = dropWhile is_digit r2"
  define tw where "tw = takeWhile is_digit r2"
  have "match_tail (c # cs) = (if tw \<noteq> [] \<and> (r3 = [] \<or> r3 = [newline]) then Some tw else None)"
    using c dw [unfolded d] r2_def [symmetric] tw_def [symmetric] r3_def [symmetric]
    by (rule match_tail_blank)
  with assms have t: "tw \<noteq> []" "r3 = [] \<or> r3 = [newline]" "ds = tw"
    by (auto simp: r split: if_splits)
  let ?ws2 = "takeWhile is_space (c # cs)"
  let ?ws3 = "takeWhile is_space r1"
  have 1: "c # cs = ?ws2 @ CHR ''/'' # r1"
    using takeWhile_dropWhile_id [of is_space "c # cs"] unfolding dw d by simp
  have 2: "r1 = ?ws3 @ r2"
    unfolding r2_def by simp
  have 3: "r2 = tw @ r3"
    unfolding tw_def r3_def by simp
  have e: "r = ?ws2 @ ''/'' @ ?ws3 @ ds @ r3"
    unfolding r t(3) using 1 2 3 by (metis append_Cons append_Nil)
  have n: "?ws2 \<noteq> []" using c by simp
  have b: "blanks ?ws2" "blanks ?ws3"
    by (auto simp: blanks_def list_all_iff dest: set_takeWhileD)
  have g: "digit_run ds"
    using t(1) by (auto simp: digit_run_def t(3) tw_def list_all_iff dest: set_takeWhileD)
  from e n b g t(2) show ?thesis by blast
qed

lemma split_aux_skip: "split_aux [] s = split_aux [] (dropWhile is_space s)"
  by (induction s) auto

lemma split_aux_unfold:
  "split_aux w s =
     (if w @ takeWhile (\<lambda>c. \<not> is_space c) s = [] then []
      else [w @ takeWhile (\<lambda>c. \<not> is_space c) s])
     @ split_aux [] (dropWhile (\<lambda>c. \<not> is_space c) s)"
proof (induction s arbitrary: w)
  case Nil
  then show ?case by simp
next
  case (Cons c cs)
  show ?case
  proof (cases "is_space c")
    case True
    then show ?thesis by simp
  next
    case False
    then show ?thesis using Cons [of "w @ [c]"] by simp
  qed
qed

text \<open>The first word that \<open>split\<close> returns, with the blanks before it and the rest of
  the text, which is empty or starts with a blank.\<close>

lemma split_aux_ConsD:
  assumes "split_aux [] s = x # rest"
  shows "\<exists>ws0 s'. s = ws0 @ x @ s' \<and> (\<forall>c\<in>set ws0. is_space c) \<and> x \<noteq> []
           \<and> (\<forall>c\<in>set x. \<not> is_space c) \<and> (s' = [] \<or> is_space (hd s'))
           \<and> split_aux [] s' = rest"
proof -
  let ?ws0 = "takeWhile is_space s"
  let ?s1 = "dropWhile is_space s"
  let ?x = "takeWhile (\<lambda>c. \<not> is_space c) ?s1"
  let ?s2 = "dropWhile (\<lambda>c. \<not> is_space c) ?s1"
  have u: "split_aux [] s = (if ?x = [] then [] else [?x]) @ split_aux [] ?s2"
    using split_aux_skip [of s] split_aux_unfold [of "[]" ?s1] by simp
  have ne: "?s1 \<noteq> []"
  proof
    assume "?s1 = []"
    with u assms show False by simp
  qed
  then have "\<not> is_space (hd ?s1)" by (rule hd_dropWhile)
  then have x: "?x \<noteq> []" using ne by (cases ?s1) auto
  with u assms have 1: "x = ?x" "split_aux [] ?s2 = rest" by simp_all
  have 2: "s = ?ws0 @ ?x @ ?s2" by simp
  have 3: "?s2 = [] \<or> is_space (hd ?s2)"
    using hd_dropWhile [of "\<lambda>c. \<not> is_space c" ?s1] by auto
  have 4: "\<forall>c\<in>set ?ws0. is_space c" "\<forall>c\<in>set ?x. \<not> is_space c"
    by (auto dest: set_takeWhileD)
  from 1 2 3 4 x show ?thesis by (metis (no_types, lifting))
qed

lemma split_aux_NilD: "split_aux [] s = [] \<Longrightarrow> \<forall>c\<in>set s. is_space c"
proof -
  assume a: "split_aux [] s = []"
  let ?s1 = "dropWhile is_space s"
  have u: "split_aux [] s =
             (if takeWhile (\<lambda>c. \<not> is_space c) ?s1 = [] then []
              else [takeWhile (\<lambda>c. \<not> is_space c) ?s1])
             @ split_aux [] (dropWhile (\<lambda>c. \<not> is_space c) ?s1)"
    using split_aux_skip [of s] split_aux_unfold [of "[]" ?s1] by simp
  have "?s1 = []"
  proof (rule ccontr)
    assume ne: "?s1 \<noteq> []"
    then have "\<not> is_space (hd ?s1)" by (rule hd_dropWhile)
    then have "takeWhile (\<lambda>c. \<not> is_space c) ?s1 \<noteq> []" using ne by (cases ?s1) auto
    with u a show False by simp
  qed
  then show ?thesis by (simp add: dropWhile_eq_Nil_conv)
qed

lemma split_aux_lower: "split_aux (lower w) (lower s) = map lower (split_aux w s)"
proof (induction s arbitrary: w)
  case Nil
  show ?case by (simp add: lower_def)
next
  case (Cons c cs)
  have e: "split_aux [] (lower cs) = map lower (split_aux [] cs)"
    using Cons [of "[]"] by (simp add: lower_def)
  have f: "split_aux (lower w @ [lower_char c]) (lower cs) = map lower (split_aux (w @ [c]) cs)"
    using Cons [of "w @ [c]"] by (simp add: lower_def)
  have l: "lower (c # cs) = lower_char c # lower cs" by (simp add: lower_def)
  show ?case unfolding l by (simp add: e f is_space_lower_char lower_empty)
qed

lemma split_lower: "split (lower s) = map lower (split s)"
  using split_aux_lower [of "[]" s] by (simp add: split_def lower_def)

lemma two_words_form:
  assumes "length (split (lower a)) = 2" and "newline \<notin> set a"
  shows "\<exists>ws0 t1 ws1 t2 ws4. a = ws0 @ t1 @ ws1 @ t2 @ ws4 \<and> plain_term t1 \<and> plain_term t2
           \<and> line_blanks ws0 \<and> line_blanks ws1 \<and> ws1 \<noteq> [] \<and> blanks ws4"
proof -
  from assms(1) have "length (split a) = 2" by (simp add: split_lower)
  then obtain t1 t2 where s: "split_aux [] a = [t1, t2]"
    unfolding split_def by (auto simp: length_Suc_conv numeral_2_eq_2)
  from split_aux_ConsD [OF s] obtain ws0 s1 where
    1: "a = ws0 @ t1 @ s1" "\<forall>c\<in>set ws0. is_space c" "t1 \<noteq> []" "\<forall>c\<in>set t1. \<not> is_space c"
      "s1 = [] \<or> is_space (hd s1)" "split_aux [] s1 = [t2]"
    by blast
  from split_aux_ConsD [OF 1(6)] obtain ws1 s2 where
    2: "s1 = ws1 @ t2 @ s2" "\<forall>c\<in>set ws1. is_space c" "t2 \<noteq> []" "\<forall>c\<in>set t2. \<not> is_space c"
      "split_aux [] s2 = []"
    by blast
  have w: "ws1 \<noteq> []"
  proof
    assume e: "ws1 = []"
    with 2(1,3) have "s1 \<noteq> []" "hd s1 = hd t2" by simp_all
    with 1(5) 2(3,4) show False by auto
  qed
  from 2(5) have 3: "\<forall>c\<in>set s2. is_space c" by (rule split_aux_NilD)
  from assms(2) 1(1) 2(1) have n: "newline \<notin> set ws0" "newline \<notin> set ws1" by auto
  have "a = ws0 @ t1 @ ws1 @ t2 @ s2" using 1(1) 2(1) by simp
  moreover have "plain_term t1" "plain_term t2"
    using 1(3,4) 2(3,4) by (simp_all add: plain_term_def list_all_iff)
  moreover have "line_blanks ws0" "line_blanks ws1"
    using 1(2) 2(2) n by (auto simp: line_blanks_def list_all_iff)
  moreover have "blanks s2" using 3 by (simp add: blanks_def list_all_iff)
  ultimately show ?thesis using w by blast
qed

lemma two_term_grammar_iff:
  "two_term_grammar query =
     (\<exists>ws0 t1 ws1 t2 ws2 ws3 ds nl.
        query = ws0 @ t1 @ ws1 @ t2 @ ws2 @ ''/'' @ ws3 @ ds @ nl \<and>
        plain_term t1 \<and> plain_term t2 \<and> line_blanks ws0 \<and> line_blanks ws1 \<and> ws1 \<noteq> [] \<and>
        blanks ws2 \<and> ws2 \<noteq> [] \<and> blanks ws3 \<and> digit_run ds \<and> (nl = [] \<or> nl = [newline]))"
proof
  assume "two_term_grammar query"
  then obtain a ds where m: "re_match_proximity query = Some (a, ds)"
    and l: "length (split (lower a)) = 2"
    by (auto simp: two_term_grammar_def split: option.splits)
  from lazy_prefix_SomeD [OF m [unfolded re_match_proximity_def]] obtain r where
    q: "query = a @ r" and t: "match_tail r = Some ds" and n: "newline \<notin> set a"
    by auto
  from match_tail_SomeD [OF t] obtain ws2 ws3 nl where
    r: "r = ws2 @ ''/'' @ ws3 @ ds @ nl" "ws2 \<noteq> []" "blanks ws2" "blanks ws3" "digit_run ds"
      "nl = [] \<or> nl = [newline]"
    by blast
  from two_words_form [OF l n] obtain ws0 t1 ws1 t2 ws4 where
    a: "a = ws0 @ t1 @ ws1 @ t2 @ ws4" "plain_term t1" "plain_term t2" "line_blanks ws0"
      "line_blanks ws1" "ws1 \<noteq> []" "blanks ws4"
    by blast
  have "query = ws0 @ t1 @ ws1 @ t2 @ (ws4 @ ws2) @ ''/'' @ ws3 @ ds @ nl"
    by (simp add: q r(1) a(1))
  moreover have "blanks (ws4 @ ws2)" "ws4 @ ws2 \<noteq> []"
    using a(7) r(2,3) by (simp_all add: blanks_def)
  ultimately show "\<exists>ws0 t1 ws1 t2 ws2 ws3 ds nl.
        query = ws0 @ t1 @ ws1 @ t2 @ ws2 @ ''/'' @ ws3 @ ds @ nl \<and>
        plain_term t1 \<and> plain_term t2 \<and> line_blanks ws0 \<and> line_blanks ws1 \<and> ws1 \<noteq> [] \<and>
        blanks ws2 \<and> ws2 \<noteq> [] \<and> blanks ws3 \<and> digit_run ds \<and> (nl = [] \<or> nl = [newline])"
    using a(2-6) r(4-6) by blast
next
  assume "\<exists>ws0 t1 ws1 t2 ws2 ws3 ds nl.
        query = ws0 @ t1 @ ws1 @ t2 @ ws2 @ ''/'' @ ws3 @ ds @ nl \<and>
        plain_term t1 \<and> plain_term t2 \<and> line_blanks ws0 \<and> line_blanks ws1 \<and> ws1 \<noteq> [] \<and>
        blanks ws2 \<and> ws2 \<noteq> [] \<and> blanks ws3 \<and> digit_run ds \<and> (nl = [] \<or> nl = [newline])"
  then obtain ws0 t1 ws1 t2 ws2 ws3 ds nl where
    q: "query = ws0 @ t1 @ ws1 @ t2 @ ws2 @ ''/'' @ ws3 @ ds @ nl"
    and h: "plain_term t1" "plain_term t2" "line_blanks ws0" "line_blanks ws1" "ws1 \<noteq> []"
      "blanks ws2" "ws2 \<noteq> []" "blanks ws3" "digit_run ds" "nl = [] \<or> nl = [newline]"
    by blast
  have m: "re_match_proximity query = Some (ws0 @ t1 @ ws1 @ t2, ds)"
    unfolding q using h(1,2,3,4,7,6,8,9,10) by (rule re_match_two_term_form)
  have s: "split (lower (ws0 @ t1 @ ws1 @ t2)) = [lower t1, lower t2]"
    using h(1,2,3,4,5) by (rule split_lower_two_term_form)
  show "two_term_grammar query"
    by (simp add: two_term_grammar_def m s)
qed

subsection \<open>Dictionaries\<close>

lemma map_of_dict_set: "map_of (dict_set k v m) = (map_of m)(k \<mapsto> v)"
  by (induction m) (auto simp: fun_eq_iff)

lemma dict_set_append: "k \<notin> fst ` set m \<Longrightarrow> dict_set k v m = m @ [(k, v)]"
  by (induction m) auto

lemma dict_set_same: "map_of m k = Some v \<Longrightarrow> dict_set k v m = m"
  by (induction m) (auto split: if_splits)

lemma fst_dd_getitem: "fst (dd_getitem dflt m k) = (case map_of m k of Some v \<Rightarrow> v | None \<Rightarrow> dflt)"
  by (simp add: dd_getitem_def split: option.splits)

lemma map_of_dd_getitem:
  "map_of (snd (dd_getitem dflt m k)) = (map_of m)(k \<mapsto> (case map_of m k of Some v \<Rightarrow> v | None \<Rightarrow> dflt))"
  by (auto simp: dd_getitem_def fun_eq_iff map_add_def split: option.splits)

lemma position_list_add_position:
  "position_list (add_position p t d pos) t' d' =
     (if t' = t \<and> d' = d then Some (olist (position_list p t d) @ [pos])
      else position_list p t' d')"
  by (auto simp: add_position_def position_list_def olist_def split_beta Let_def
        map_of_dict_set fst_dd_getitem map_of_dd_getitem split: option.splits)

lemma position_list_fold:
  "position_list (foldl (\<lambda>p (term, position). add_position p term d position) p toks) t' d' =
     (if d' = d \<and> filter (\<lambda>(s, pos). s = t') toks \<noteq> []
      then Some (olist (position_list p t' d) @ map snd (filter (\<lambda>(s, pos). s = t') toks))
      else position_list p t' d')"
proof (induction toks arbitrary: p)
  case Nil
  then show ?case by simp
next
  case (Cons a toks)
  obtain s pos where a: "a = (s, pos)" by (cases a)
  show ?case
    by (auto simp: a Cons.IH position_list_add_position olist_def)
qed

lemma map_of_add_posting:
  "map_of (add_posting i t d) t' =
     (if t' = t then Some (olist (map_of i t) @ [d]) else map_of i t')"
  by (auto simp: add_posting_def olist_def split_beta Let_def
        map_of_dict_set fst_dd_getitem map_of_dd_getitem split: option.splits)

lemma map_of_fold_add_posting:
  "distinct ts \<Longrightarrow>
   map_of (foldl (\<lambda>i term. add_posting i term d) i ts) t' =
     (if t' \<in> set ts then Some (olist (map_of i t') @ [d]) else map_of i t')"
  by (induction ts arbitrary: i) (auto simp: map_of_add_posting)

lemma preprocess_text_stops:
  "preprocess_text stem e text =
     map (\<lambda>(pos, token). (stem token, int pos))
       (filter (\<lambda>(pos, token). token \<notin> stop_words e) (enumerate 0 (findall (lower text))))"
  by (simp add: preprocess_text_def)

lemma preprocess_positions:
  "map snd (filter (\<lambda>(s, pos). s = t) (preprocess_text stem e text)) =
     token_positions stem (stop_words e) text t"
  unfolding preprocess_text_def token_positions_def Let_def
  by (induction "enumerate 0 (findall (lower text))" rule: list.induct)
     (auto simp: filter_map o_def split_beta)

subsection \<open>What the build loop stores\<close>

lemma index_doc_simp: "index_doc stem e (d, fn, body) = index_document stem e d fn body"
  by (simp add: index_doc_def)

lemma filter_tokens_empty:
  "(filter (\<lambda>(s, pos). s = t) (preprocess_text stem e text) = []) =
     (token_positions stem (stop_words e) text t = [])"
  by (simp add: preprocess_positions [symmetric])

lemma index_document_fields:
  "stop_words (index_document stem e d fn text) = stop_words e"
  "docs_folder (index_document stem e d fn text) = docs_folder e"
  "doc_ids (index_document stem e d fn text) = dict_set d fn (doc_ids e)"
  by (simp_all add: index_document_def Let_def)

lemma index_document_positions:
  "position_list (positional_index (index_document stem e d fn text)) t d' =
     (if d' = d \<and> token_positions stem (stop_words e) text t \<noteq> []
      then Some (olist (position_list (positional_index e) t d)
                   @ token_positions stem (stop_words e) text t)
      else position_list (positional_index e) t d')"
proof -
  have p: "preprocess_text stem (e\<lparr>doc_ids := x\<rparr>) text = preprocess_text stem e text" for x
    by (simp add: preprocess_text_def)
  show ?thesis
    by (simp add: index_document_def Let_def p position_list_fold filter_tokens_empty
          preprocess_positions)
qed

lemma index_document_postings:
  "map_of (inverted_index (index_document stem e d fn text)) t =
     (if token_positions stem (stop_words e) text t \<noteq> []
      then Some (olist (map_of (inverted_index e) t) @ [d])
      else map_of (inverted_index e) t)"
proof -
  have p: "preprocess_text stem (e\<lparr>doc_ids := x\<rparr>) text = preprocess_text stem e text" for x
    by (simp add: preprocess_text_def)
  have m: "(t \<in> fst ` set toks) = (filter (\<lambda>(s, pos). s = t) toks \<noteq> [])"
    for toks :: "(string \<times> int) list"
    by (induction toks) auto
  show ?thesis
    by (simp add: index_document_def Let_def p map_of_fold_add_posting m filter_tokens_empty)
qed

lemma fst_build_fold:
  "fst (foldl (build_step stem) st entries) =
     foldl (index_doc stem) (fst st) (docs_of_entries entries)"
proof (induction entries arbitrary: st)
  case Nil
  then show ?case by (simp add: docs_of_entries_def)
next
  case (Cons x xs)
  obtain e p f where st: "st = (e, p, f)" by (cases st)
  obtain i fn c where x: "x = (i, fn, c)" by (cases x)
  have d: "docs_of_entries (x # xs) = docs_of_entries [x] @ docs_of_entries xs"
    by (simp add: docs_of_entries_def)
  show ?case
    unfolding foldl_Cons Cons.IH d foldl_append
    by (cases c) (simp_all add: st x build_step_def docs_of_entries_def index_doc_simp)
qed

lemma fst_build_loop:
  "fst (build_loop stem e listing) = foldl (index_doc stem) e (indexed_docs listing)"
  by (simp add: build_loop_def fst_build_fold indexed_docs_def)

lemma run_stop_words: "stop_words (foldl (index_doc stem) e ds) = stop_words e"
  by (induction ds arbitrary: e) (auto simp: index_doc_simp index_document_fields)

lemma run_positions:
  "position_list (positional_index (foldl (index_doc stem) (init_engine folder stops) ds)) t d =
     nonempty (concat (map (\<lambda>(d', fn, text). if d' = d then token_positions stem stops text t else []) ds))"
proof (induction ds rule: rev_induct)
  case Nil
  then show ?case by (simp add: init_engine_def position_list_def nonempty_def)
next
  case (snoc x ds)
  obtain d' fn body where x: "x = (d', fn, body)" by (cases x)
  have s: "stop_words (foldl (index_doc stem) (init_engine folder stops) ds) = stops"
    by (simp add: run_stop_words init_engine_def)
  show ?case
    by (auto simp: x index_doc_simp index_document_positions s snoc.IH nonempty_def olist_def)
qed

lemma run_postings:
  "map_of (inverted_index (foldl (index_doc stem) (init_engine folder stops) ds)) t =
     nonempty (map fst (filter (\<lambda>(d, fn, text). token_positions stem stops text t \<noteq> []) ds))"
proof (induction ds rule: rev_induct)
  case Nil
  then show ?case by (simp add: init_engine_def nonempty_def)
next
  case (snoc x ds)
  obtain d' fn body where x: "x = (d', fn, body)" by (cases x)
  have s: "stop_words (foldl (index_doc stem) (init_engine folder stops) ds) = stops"
    by (simp add: run_stop_words init_engine_def)
  show ?case
    by (auto simp: x index_doc_simp index_document_postings s snoc.IH nonempty_def olist_def)
qed

lemma run_doc_ids:
  "distinct (map fst ds) \<Longrightarrow>
   doc_ids (foldl (index_doc stem) (init_engine folder stops) ds) =
     map (\<lambda>(d, fn, text). (d, fn)) ds"
proof (induction ds rule: rev_induct)
  case Nil
  then show ?case by (simp add: init_engine_def)
next
  case (snoc x ds)
  obtain d' fn body where x: "x = (d', fn, body)" by (cases x)
  from snoc.prems have n: "d' \<notin> fst ` set (map (\<lambda>(d, fn, text). (d, fn)) ds)"
    by (force simp: x)
  from snoc have ih: "doc_ids (foldl (index_doc stem) (init_engine folder stops) ds) =
     map (\<lambda>(d, fn, text). (d, fn)) ds" by simp
  show ?case
    using dict_set_append [OF n]
    by (simp add: x index_doc_simp index_document_fields ih)
qed

lemma docs_of_entries_ge:
  "(d, fn, text) \<in> set (docs_of_entries (enumerate n xs)) \<Longrightarrow> int n \<le> d"
  by (induction xs arbitrary: n)
     (fastforce simp: docs_of_entries_def split: option.splits if_splits)+

lemma docs_of_entries_distinct: "distinct (map fst (docs_of_entries (enumerate n xs)))"
proof (induction xs arbitrary: n)
  case Nil
  then show ?case by (simp add: docs_of_entries_def)
next
  case (Cons x xs)
  obtain fn c where x: "x = (fn, c)" by (cases x)
  have d: "docs_of_entries (enumerate n (x # xs)) =
             docs_of_entries [(n, x)] @ docs_of_entries (enumerate (Suc n) xs)"
    by (simp add: docs_of_entries_def)
  have "int n \<notin> fst ` set (docs_of_entries (enumerate (Suc n) xs))"
    using docs_of_entries_ge [of _ _ _ "Suc n" xs] by force
  then show ?case
    unfolding d using Cons.IH [of "Suc n"]
    by (auto simp: x docs_of_entries_def split: option.splits)
qed

lemma docs_of_entries_names:
  "map (\<lambda>(d, fn, text). (d, fn)) (docs_of_entries entries) =
     map (\<lambda>(i, fn, c). (int i, fn))
       (filter (\<lambda>(i, fn, c). endswith fn ''.txt'' \<and> c \<noteq> None) entries)"
  by (induction entries) (auto simp: docs_of_entries_def split: option.splits if_splits)

lemma docs_of_entries_at:
  "concat (map (\<lambda>(d, fn, text). if d = int i then f text else []) (docs_of_entries (enumerate n xs))) =
     (if n \<le> i \<and> i < n + length xs
      then (case xs ! (i - n) of
              (fn, Some text) \<Rightarrow> if endswith fn ''.txt'' then f text else []
            | (fn, None) \<Rightarrow> [])
      else [])"
proof (induction xs arbitrary: n)
  case Nil
  then show ?case by (auto simp: docs_of_entries_def)
next
  case (Cons x xs)
  obtain fn c where x: "x = (fn, c)" by (cases x)
  have d: "docs_of_entries (enumerate n (x # xs)) =
             docs_of_entries [(n, x)] @ docs_of_entries (enumerate (Suc n) xs)"
    by (simp add: docs_of_entries_def)
  have one: "docs_of_entries [(n, x)] =
      (case c of Some body \<Rightarrow> if endswith fn ''.txt'' then [(int n, fn, body)] else []
       | None \<Rightarrow> [])"
    by (simp add: docs_of_entries_def x)
  let ?g = "\<lambda>(d, fn, text). if d = int i then f text else []"
  have rest: "concat (map ?g (docs_of_entries (enumerate (Suc n) xs))) =
     (if Suc n \<le> i \<and> i < Suc n + length xs
      then (case xs ! (i - Suc n) of
              (fn, Some text) \<Rightarrow> if endswith fn ''.txt'' then f text else []
            | (fn, None) \<Rightarrow> [])
      else [])"
    by (rule Cons.IH)
  show ?case
  proof (cases "i = n")
    case True
    then show ?thesis
      unfolding d map_append concat_append rest one
      by (simp add: x split: option.splits)
  next
    case False
    then have "i < n \<or> Suc n \<le> i" by arith
    then show ?thesis
      unfolding d map_append concat_append rest one using False
      by (auto simp: x Suc_diff_le nth_Cons' split: option.splits)
  qed
qed

text \<open>The same for a build that starts from any engine: it adds to what is there.\<close>

lemma run_positions_from:
  "position_list (positional_index (foldl (index_doc stem) e ds)) t d =
     (let new = concat (map (\<lambda>(d', fn, text). if d' = d then token_positions stem (stop_words e) text t else []) ds)
      in if new = [] then position_list (positional_index e) t d
         else Some (olist (position_list (positional_index e) t d) @ new))"
proof (induction ds rule: rev_induct)
  case Nil
  then show ?case by simp
next
  case (snoc x ds)
  obtain d' fn body where x: "x = (d', fn, body)" by (cases x)
  show ?case
    by (auto simp: x index_doc_simp index_document_positions run_stop_words snoc.IH Let_def olist_def)
qed

lemma run_postings_from:
  "map_of (inverted_index (foldl (index_doc stem) e ds)) t =
     (let new = map fst (filter (\<lambda>(d, fn, text). token_positions stem (stop_words e) text t \<noteq> []) ds)
      in if new = [] then map_of (inverted_index e) t
         else Some (olist (map_of (inverted_index e) t) @ new))"
proof (induction ds rule: rev_induct)
  case Nil
  then show ?case by simp
next
  case (snoc x ds)
  obtain d' fn body where x: "x = (d', fn, body)" by (cases x)
  show ?case
    by (auto simp: x index_doc_simp index_document_postings run_stop_words snoc.IH Let_def olist_def)
qed

lemma run_doc_ids_from:
  "doc_ids (foldl (index_doc stem) e ds) =
     foldl (\<lambda>m (d, fn). dict_set d fn m) (doc_ids e) (map (\<lambda>(d, fn, text). (d, fn)) ds)"
proof (induction ds rule: rev_induct)
  case Nil
  then show ?case by simp
next
  case (snoc x ds)
  obtain d' fn body where x: "x = (d', fn, body)" by (cases x)
  show ?case by (simp add: x index_doc_simp index_document_fields snoc.IH)
qed

subsection \<open>Document ids\<close>

text \<open>
  Claim C4, as amended. An entry whose name does not end with \<open>.txt\<close> is skipped, and so
  is one whose text cannot be read. Every other entry is assigned, in the order of the
  listing, its index in the whole directory listing as its document id. A skipped entry
  uses up an id: started from the empty document map of the constructor, the build
  leaves exactly these assignments, whose ids need not be consecutive.
\<close>

theorem doc_ids_follow_listing:
  "doc_ids (fst (build_loop stem e listing)) =
     foldl (\<lambda>m (d, fn). dict_set d fn m) (doc_ids e)
       (map (\<lambda>(i, fn, c). (int i, fn))
          (filter (\<lambda>(i, fn, c). endswith fn ''.txt'' \<and> c \<noteq> None) (enumerate 0 listing))) \<and>
   doc_ids (fst (build_loop stem (init_engine folder stops) listing)) =
     map (\<lambda>(i, fn, c). (int i, fn))
       (filter (\<lambda>(i, fn, c). endswith fn ''.txt'' \<and> c \<noteq> None) (enumerate 0 listing))"
proof
  show "doc_ids (fst (build_loop stem e listing)) =
     foldl (\<lambda>m (d, fn). dict_set d fn m) (doc_ids e)
       (map (\<lambda>(i, fn, c). (int i, fn))
          (filter (\<lambda>(i, fn, c). endswith fn ''.txt'' \<and> c \<noteq> None) (enumerate 0 listing)))"
    by (simp add: fst_build_loop indexed_docs_def run_doc_ids_from docs_of_entries_names)
  show "doc_ids (fst (build_loop stem (init_engine folder stops) listing)) =
     map (\<lambda>(i, fn, c). (int i, fn))
       (filter (\<lambda>(i, fn, c). endswith fn ''.txt'' \<and> c \<noteq> None) (enumerate 0 listing))"
    by (simp add: fst_build_loop indexed_docs_def run_doc_ids docs_of_entries_distinct
          docs_of_entries_names)
qed

text \<open>A listing with a file of another extension between two documents gives the ids
  0 and 2.\<close>

theorem doc_ids_gap_counterexample:
  "doc_ids (fst (build_loop id (init_engine ''Abstracts'' {})
       [(''a.txt'', Some ''deep''), (''notes.md'', Some ''deep''), (''b.txt'', Some ''deep'')])) =
     [(0, ''a.txt''), (2, ''b.txt'')] \<and>
   \<not> consecutive_ids (fst (build_loop id (init_engine ''Abstracts'' {})
       [(''a.txt'', Some ''deep''), (''notes.md'', Some ''deep''), (''b.txt'', Some ''deep'')]))"
  unfolding consecutive_ids_def by code_simp

subsection \<open>Positions\<close>

text \<open>
  Claim C2, as amended. For every document the build indexes, the positions it stores
  for a stem and that document are the indexes, counted from 0 over all the tokens of
  the text with the stop words included, of the tokens that are no stop words and have
  that stem: a stop word is not stored but it uses up a position. The build appends
  these positions to the list that is there; started from the empty indexes of the
  constructor, it leaves exactly them.
\<close>

theorem positions_count_all_tokens:
  assumes "i < length listing" and "listing ! i = (fn, Some body)" and "endswith fn ''.txt''"
  shows "position_list (positional_index (fst (build_loop stem e listing))) t (int i) =
           (if token_positions stem (stop_words e) body t = []
            then position_list (positional_index e) t (int i)
            else Some (olist (position_list (positional_index e) t (int i))
                         @ token_positions stem (stop_words e) body t)) \<and>
         position_list
           (positional_index (fst (build_loop stem (init_engine folder stops) listing))) t (int i) =
         nonempty (token_positions stem stops body t)"
proof
  show "position_list (positional_index (fst (build_loop stem e listing))) t (int i) =
           (if token_positions stem (stop_words e) body t = []
            then position_list (positional_index e) t (int i)
            else Some (olist (position_list (positional_index e) t (int i))
                         @ token_positions stem (stop_words e) body t))"
    using assms
    by (simp add: fst_build_loop indexed_docs_def run_positions_from docs_of_entries_at)
  show "position_list
           (positional_index (fst (build_loop stem (init_engine folder stops) listing))) t (int i) =
         nonempty (token_positions stem stops body t)"
    using assms
    by (simp add: fst_build_loop indexed_docs_def run_positions docs_of_entries_at)
qed

theorem positions_count_all_tokens_witness:
  "(0::nat) < length [(''d.txt'', Some ''a deep model'')] \<and>
   [(''d.txt'', Some ''a deep model'')] ! 0 = (''d.txt'', Some ''a deep model'') \<and>
   endswith ''d.txt'' ''.txt'' \<and>
   position_list
     (positional_index (fst (build_loop id (init_engine ''Abstracts'' {''a''})
        [(''d.txt'', Some ''a deep model'')]))) ''model'' 0 = Some [2]"
proof -
  have a: "(0::nat) < length [(''d.txt'', Some ''a deep model'')]" by simp
  have b: "[(''d.txt'', Some ''a deep model'')] ! 0 = (''d.txt'', Some ''a deep model'')" by simp
  have c: "endswith ''d.txt'' ''.txt''" by (simp add: endswith_def)
  have v: "nonempty (token_positions id {''a''} ''a deep model'' ''model'') = Some [2]"
    by code_simp
  show ?thesis
    using positions_count_all_tokens [OF a b c, where stem = id and folder = "''Abstracts''"
        and stops = "{''a''}" and t = "''model''", THEN conjunct2] a b c v
    by simp
qed

text \<open>After the stop word \<open>a\<close> the stem \<open>deep\<close> is stored at position 1, where the
  count among the retained tokens gives 0.\<close>

theorem retained_positions_counterexample:
  "position_list
     (positional_index (fst (build_loop id (init_engine ''Abstracts'' {''a''})
        [(''d.txt'', Some ''a deep model'')]))) ''deep'' 0 = Some [1] \<and>
   retained_positions id {''a''} ''a deep model'' ''deep'' = [0]"
  by code_simp

subsection \<open>Posting lists\<close>

text \<open>
  A build appends to the posting list of a stem the ids of the documents that contain
  it, each once, however often the stem occurs in a document. Started from the empty
  indexes of the constructor it leaves posting lists of distinct ids.
\<close>

lemma posting_lists_appended:
  "postings_of (fst (build_loop stem e listing)) t =
     postings_of e t @
       map fst (filter (\<lambda>(d, fn, text). token_positions stem (stop_words e) text t \<noteq> [])
                  (indexed_docs listing)) \<and>
   distinct (map fst (filter (\<lambda>(d, fn, text). token_positions stem (stop_words e) text t \<noteq> [])
                  (indexed_docs listing)))"
proof -
  have "distinct (map fst (filter P (indexed_docs listing)))" for P
    unfolding indexed_docs_def by (rule distinct_map_filter) (rule docs_of_entries_distinct)
  then show ?thesis
    by (simp add: postings_of_def dict_get_default_def fst_build_loop run_postings_from Let_def
          olist_def split: option.splits)
qed

lemma posting_lists_distinct:
  "distinct (postings_of (fst (build_loop stem (init_engine folder stops) listing)) t)"
proof -
  have "distinct (map fst (filter P (indexed_docs listing)))" for P
    unfolding indexed_docs_def by (rule distinct_map_filter) (rule docs_of_entries_distinct)
  then show ?thesis
    by (simp add: postings_of_def dict_get_default_def fst_build_loop run_postings nonempty_def)
qed

text \<open>
  Claim C9. The claim asks for distinct ids in every posting list after any build.
  \<open>_build_indexes\<close> also builds after a load that failed, and then the loop runs on
  what the load had stored: with a snapshot whose positional index has a key that is no
  number, the posting list loaded for \<open>deep\<close> is still there when the document is indexed,
  and document 0 is in it twice. The bound on conversions, here the interpreter's 4300
  digits, plays no part.
\<close>

theorem fallback_build_duplicates:
  "load_indexes 4300 (init_engine ''Abstracts'' {}) broken_snapshot =
     Inl (ValueError,
          \<lparr>docs_folder = ''Abstracts'', stop_words = {}, inverted_index = [(''deep'', [0])],
           positional_index = [(''deep'', [])], doc_ids = [(0, ''1.txt'')]\<rparr>) \<and>
   map_sum id (\<lambda>built. postings_of (fst built) ''deep'')
     (build_indexes 4300 id ''now'' (init_engine ''Abstracts'' {}) (Stored broken_snapshot)
        [(''1.txt'', Some ''deep learning'')]) = Inr [0, 0]"
  unfolding broken_snapshot_def init_engine_def by code_simp

subsection \<open>The proximity evaluator\<close>

lemma fst_pos_getitem: "fst (pos_getitem p t d) = positions_at p t d"
  by (auto simp: pos_getitem_def positions_at_def position_list_def olist_def dd_getitem_def
        split: option.splits)

lemma position_list_pos_getitem:
  "position_list (snd (pos_getitem p t d)) t' d' =
     (if t' = t \<and> d' = d then Some (positions_at p t d) else position_list p t' d')"
  by (auto simp: pos_getitem_def positions_at_def position_list_def olist_def dd_getitem_def
        map_of_dict_set map_add_def split: option.splits)

lemma positions_at_pos_getitem:
  "positions_at (snd (pos_getitem p t d)) = positions_at p"
  by (auto simp: fun_eq_iff positions_at_def [of "snd _"] position_list_pos_getitem olist_def)
     (auto simp: positions_at_def olist_def)

lemma pos_getitem_present:
  "position_list p t d \<noteq> None \<Longrightarrow> snd (pos_getitem p t d) = p"
  by (auto simp: pos_getitem_def position_list_def dd_getitem_def dict_set_same
        split: option.splits)

lemma within_iff:
  "within k ps1 ps2 = (\<exists>p1\<in>set ps1. \<exists>p2\<in>set ps2. \<bar>p1 - p2\<bar> \<le> k)"
  by (simp add: within_def list_ex_iff)

lemma proximity_step_eq:
  "proximity_step s1 s2 k (p, acc) d =
     (snd (pos_getitem (snd (pos_getitem p s1 d)) s2 d),
      if within k (positions_at p s1 d) (positions_at p s2 d) then acc @ [d] else acc)"
  by (simp add: proximity_step_def split_beta Let_def fst_pos_getitem positions_at_pos_getitem)

lemma proximity_fold_result:
  "snd (foldl (proximity_step s1 s2 k) (p, acc) ds) =
     acc @ filter (\<lambda>d. within k (positions_at p s1 d) (positions_at p s2 d)) ds"
proof (induction ds arbitrary: p acc)
  case Nil
  then show ?case by simp
next
  case (Cons d ds)
  show ?case
    by (simp add: proximity_step_eq Cons.IH positions_at_pos_getitem)
qed

lemma proximity_fold_state:
  "\<forall>d\<in>set ds. position_list p s1 d \<noteq> None \<and> position_list p s2 d \<noteq> None \<Longrightarrow>
   fst (foldl (proximity_step s1 s2 k) (p, acc) ds) = p"
proof (induction ds arbitrary: acc)
  case Nil
  then show ?case by simp
next
  case (Cons d ds)
  then show ?case
    by (simp add: proximity_step_eq pos_getitem_present)
qed

lemma sort_filter_sorted_list_of_set:
  "finite S \<Longrightarrow> sort (filter P (sorted_list_of_set S)) = sorted_list_of_set {d \<in> S. P d}"
proof -
  assume f: "finite S"
  have s: "sorted (filter P (sorted_list_of_set S))"
    using sorted_filter [of "\<lambda>x. x" "sorted_list_of_set S" P] by simp
  have "sort (filter P (sorted_list_of_set S)) = filter P (sorted_list_of_set S)"
    using s by (rule sorted_sort_id)
  also have "\<dots> = sorted_list_of_set {d \<in> S. P d}"
    using f s by (intro sorted_distinct_set_unique) auto
  finally show ?thesis .
qed

lemma process_query_slash:
  "contains ''/'' query \<Longrightarrow>
   process_query max_digits stem hash e query = process_proximity_query max_digits stem e query"
  by (simp add: process_query_def)

text \<open>\<open>int\<close> is applied to the digits as soon as the pattern has matched: it raises on a
  run that is longer than the bound, whatever stands before the slash.\<close>

lemma proximity_over_limit:
  assumes "re_match_proximity query = Some (terms_part, ds)"
    and "over_limit max_digits (length ds)"
  shows "process_proximity_query max_digits stem e query = (e, [], Inl ValueError)"
  using assms re_match_proximity_int [OF assms(1), of max_digits]
  by (simp add: process_proximity_query_def)

lemma proximity_eval:
  assumes "re_match_proximity query = Some (terms_part, ds)"
    and "split (lower terms_part) = [term1, term2]"
    and "\<not> over_limit max_digits (length ds)"
  shows "snd (process_proximity_query max_digits stem e query) =
           ([], Inr (sorted_list_of_set
                  {d \<in> set (postings_of e (stem term1)) \<inter> set (postings_of e (stem term2)).
                     near e (int (digits_value ds)) (stem term1) (stem term2) d}))"
  using assms re_match_proximity_int [OF assms(1), of max_digits]
  by (simp add: process_proximity_query_def Let_def split_beta proximity_fold_result
        sort_filter_sorted_list_of_set within_iff near_def)

subsection \<open>Two-term proximity queries\<close>

lemma proximity_form:
  assumes "plain_term t1" and "plain_term t2"
    and "line_blanks ws0" and "line_blanks ws1" and "ws1 \<noteq> []"
    and "blanks ws2" and "ws2 \<noteq> []" and "blanks ws3"
    and "digit_run ds" and "nl = [] \<or> nl = [newline]"
  shows "snd (process_query max_digits stem hash e
                (ws0 @ t1 @ ws1 @ t2 @ ws2 @ ''/'' @ ws3 @ ds @ nl)) =
           (if over_limit max_digits (length ds) then ([], Inl ValueError)
            else ([], Inr (sorted_list_of_set
                    {d \<in> set (postings_of e (stem (lower t1)))
                           \<inter> set (postings_of e (stem (lower t2))).
                       near e (int (digits_value ds)) (stem (lower t1)) (stem (lower t2)) d})))"
proof -
  let ?q = "ws0 @ t1 @ ws1 @ t2 @ ws2 @ ''/'' @ ws3 @ ds @ nl"
  have c: "contains ''/'' ?q"
    using contains_slash [of "ws0 @ t1 @ ws1 @ t2 @ ws2" "ws3 @ ds @ nl"] by simp
  have m: "re_match_proximity ?q = Some (ws0 @ t1 @ ws1 @ t2, ds)"
    using assms(1,2,3,4,7,6,8,9,10) by (rule re_match_two_term_form)
  have s: "split (lower (ws0 @ t1 @ ws1 @ t2)) = [lower t1, lower t2]"
    using assms(1,2,3,4,5) by (rule split_lower_two_term_form)
  have pq: "process_query max_digits stem hash e ?q = process_proximity_query max_digits stem e ?q"
    using c by (rule process_query_slash)
  show ?thesis
  proof (cases "over_limit max_digits (length ds)")
    case True
    then show ?thesis
      using proximity_over_limit [OF m True, of stem e] pq by simp
  next
    case False
    then show ?thesis
      using proximity_eval [OF m s False, of stem e] pq by simp
  qed
qed

lemma proximity_canonical:
  assumes "plain_term t1" "plain_term t2"
  shows "snd (process_query max_digits stem hash e (t1 @ '' '' @ t2 @ '' /'' @ str_nat k)) =
           (if fits max_digits (int k)
            then ([], Inr (sorted_list_of_set
                    {d \<in> set (postings_of e (stem (lower t1)))
                           \<inter> set (postings_of e (stem (lower t2))).
                       near e (int k) (stem (lower t1)) (stem (lower t2)) d}))
            else ([], Inl ValueError))"
proof -
  have b: "line_blanks []" "line_blanks '' ''" "'' '' \<noteq> []" "blanks '' ''" "blanks []"
    by (simp_all add: line_blanks_def blanks_def is_space_def newline_def)
  have d: "digit_run (str_nat k)"
    using str_nat_digits [of k] by (simp add: digit_run_def list_all_iff)
  have n: "[] = [] \<or> [] = [newline]" by simp
  show ?thesis
    using proximity_form [OF assms b(1) b(2) b(3) b(4) b(3) b(5) d n,
        of max_digits stem hash e]
    by (simp add: fits_nat digits_value_str_nat)
qed

text \<open>
  Claim C3, as amended. A query of the two-term form (a first term, blanks, a second
  term, blanks, the slash, blanks or nothing, a run of digits, the end or one final
  newline; blanks may come first, and no newline stands before the second term) whose
  run of digits is within the bound on conversions prints nothing and returns the
  ascending list, without repetition, of the documents that are in the posting lists of
  both stems (the stems of the lower-cased terms) and in which some position stored for
  the first stem and some position stored for the second are at most \<open>k\<close> apart, \<open>k\<close>
  being the value of the digits. These are all the queries that the source reads as
  two-term proximity queries (\<open>two_term_grammar_iff\<close>). A longer run of digits is left
  out of the statement.
\<close>

theorem proximity_query_result:
  assumes "plain_term t1" and "plain_term t2"
    and "line_blanks ws0" and "line_blanks ws1" and "ws1 \<noteq> []"
    and "blanks ws2" and "ws2 \<noteq> []" and "blanks ws3"
    and "digit_run ds" and "nl = [] \<or> nl = [newline]"
    and "\<not> over_limit max_digits (length ds)"
  shows "snd (process_query max_digits stem hash e
                (ws0 @ t1 @ ws1 @ t2 @ ws2 @ ''/'' @ ws3 @ ds @ nl)) =
           ([], Inr (sorted_list_of_set
                  {d \<in> set (postings_of e (stem (lower t1))) \<inter> set (postings_of e (stem (lower t2))).
                     \<exists>p1\<in>set (positions_at (positional_index e) (stem (lower t1)) d).
                       \<exists>p2\<in>set (positions_at (positional_index e) (stem (lower t2)) d).
                         \<bar>p1 - p2\<bar> \<le> int (digits_value ds)}))"
  using proximity_form [OF assms(1-10), of max_digits stem hash e] assms(11)
  by (simp add: near_def)

theorem proximity_query_result_witness:
  "plain_term ''Deep'' \<and> plain_term ''model'' \<and> line_blanks '' '' \<and> line_blanks ''  '' \<and>
   blanks '' '' \<and> digit_run ''01'' \<and> \<not> over_limit 4300 (length ''01'') \<and>
   snd (process_query 4300 id (\<lambda>s. 0) model_engine
          ('' '' @ ''Deep'' @ ''  '' @ ''model'' @ '' '' @ ''/'' @ '' '' @ ''01'' @ [newline])) =
     ([], Inr [0]) \<and>
   sorted_list_of_set
      {d \<in> set (postings_of model_engine ''deep'') \<inter> set (postings_of model_engine ''model'').
         \<exists>p1\<in>set (positions_at (positional_index model_engine) ''deep'' d).
           \<exists>p2\<in>set (positions_at (positional_index model_engine) ''model'' d).
             \<bar>p1 - p2\<bar> \<le> 1} = [0]"
proof -
  have a: "plain_term ''Deep''" "plain_term ''model''"
    by (simp_all add: plain_term_def is_space_def)
  have b: "line_blanks '' ''" "line_blanks ''  ''" "''  '' \<noteq> []" "blanks '' ''" "'' '' \<noteq> []"
    by (simp_all add: line_blanks_def blanks_def is_space_def newline_def)
  have d: "digit_run ''01''" by (simp add: digit_run_def is_digit_def)
  have n: "[newline] = [] \<or> [newline] = [newline]" by simp
  have o: "\<not> over_limit 4300 (length ''01'')" by (simp add: over_limit_def)
  have l: "lower ''Deep'' = ''deep''" "lower ''model'' = ''model''" "digits_value ''01'' = 1"
    by code_simp+
  have v: "snd (process_query 4300 id (\<lambda>s. 0) model_engine
          ('' '' @ ''Deep'' @ ''  '' @ ''model'' @ '' '' @ ''/'' @ '' '' @ ''01'' @ [newline])) =
     ([], Inr [0])"
    unfolding model_engine_def newline_def by code_simp
  show ?thesis
    using proximity_query_result [OF a b(1) b(2) b(3) b(4) b(5) b(4) d n o,
        of id "\<lambda>s. 0" model_engine] a b d o
    unfolding v l by simp
qed

text \<open>
  Under the bound of 4300 digits, the query \<open>deep model /\<close> followed by 4301 digits is
  of the two-term form, and document 0, the only one in both posting lists, holds the
  two words at the positions 0 and 1, which are at most the value of the digits apart:
  the claim gives document 0, and \<open>process_query\<close> raises \<open>ValueError\<close>.
\<close>

lemma length_ones: "length (ones n) = n"
  by (simp add: ones_def)

lemma digit_run_ones: "0 < n \<Longrightarrow> digit_run (ones n)"
  by (cases n) (simp_all add: digit_run_def ones_def list_all_iff is_digit_def)

lemma digits_value_ones: "0 < n \<Longrightarrow> 1 \<le> digits_value (ones n)"
proof -
  assume "0 < n"
  then obtain m where n: "n = Suc m" by (cases n) auto
  have "ones n = ones m @ ''1''"
    unfolding n ones_def by (simp add: replicate_append_same)
  then show ?thesis by (simp add: digits_value_snoc digit_val_def)
qed

theorem proximity_digit_bound_counterexample:
  "plain_term ''deep'' \<and> plain_term ''model'' \<and> digit_run (ones 4301) \<and>
   postings_of model_engine ''deep'' = [0] \<and> postings_of model_engine ''model'' = [0] \<and>
   positions_at (positional_index model_engine) ''deep'' 0 = [0] \<and>
   positions_at (positional_index model_engine) ''model'' 0 = [1] \<and>
   \<bar>0 - 1\<bar> \<le> int (digits_value (ones 4301)) \<and>
   process_query 4300 id (\<lambda>s. 0) model_engine (''deep model /'' @ ones 4301) =
     (model_engine, [], Inl ValueError)"
proof -
  have a: "plain_term ''deep''" "plain_term ''model''"
    by (simp_all add: plain_term_def is_space_def)
  have d: "digit_run (ones 4301)" by (rule digit_run_ones) simp
  have f: "''deep model'' = [] \<or> \<not> is_space (last ''deep model'')"
    "newline \<notin> set ''deep model''" "'' '' \<noteq> []" "blanks '' ''" "blanks []"
    by (simp_all add: blanks_def is_space_def newline_def)
  have n: "[] = [] \<or> [] = [newline]" by simp
  have m: "re_match_proximity (''deep model /'' @ ones 4301) = Some (''deep model'', ones 4301)"
    using re_match_form [OF f(1) f(2) f(3) f(4) f(5) d n] by simp
  have o: "over_limit 4300 (length (ones 4301))"
    by (simp add: length_ones over_limit_def)
  have c: "contains ''/'' (''deep model /'' @ ones 4301)"
    using contains_slash [of "''deep model ''" "ones 4301"] by simp
  have r: "process_query 4300 id (\<lambda>s. 0) model_engine (''deep model /'' @ ones 4301) =
             (model_engine, [], Inl ValueError)"
    using proximity_over_limit [OF m o, of id model_engine]
      process_query_slash [OF c, of 4300 id "\<lambda>s. 0" model_engine] by simp
  have p: "postings_of model_engine ''deep'' = [0]" "postings_of model_engine ''model'' = [0]"
    "positions_at (positional_index model_engine) ''deep'' 0 = [0]"
    "positions_at (positional_index model_engine) ''model'' 0 = [1]"
    unfolding model_engine_def by code_simp+
  have k: "\<bar>0 - 1\<bar> \<le> int (digits_value (ones 4301))"
    using digits_value_ones [of 4301] by simp
  show ?thesis using a d r p k by simp
qed

lemma near_sym: "near e k s1 s2 d = near e k s2 s1 d"
  unfolding near_def by (metis abs_minus_commute)

text \<open>
  Claim C8. For two non-empty terms free of whitespace and a number \<open>k\<close>, the queries
  \<open>t1 t2 /k\<close> and \<open>t2 t1 /k\<close> return the same list of documents; when the numeral of \<open>k\<close>
  is longer than the bound on conversions, both raise \<open>ValueError\<close>.
\<close>

theorem proximity_symmetric:
  assumes "plain_term t1" and "plain_term t2"
  shows "snd (process_query max_digits stem hash e (t1 @ '' '' @ t2 @ '' /'' @ str_nat k)) =
         snd (process_query max_digits stem hash e (t2 @ '' '' @ t1 @ '' /'' @ str_nat k))"
  unfolding proximity_canonical [OF assms] proximity_canonical [OF assms(2) assms(1)]
  by (simp add: Int_commute near_sym [of e _ "stem (lower t1)"])

theorem proximity_symmetric_witness:
  "plain_term ''deep'' \<and> plain_term ''models'' \<and>
   snd (process_query 4300 id (\<lambda>s. 0) example_engine ''deep models /2'') = ([], Inr [0]) \<and>
   snd (process_query 4300 id (\<lambda>s. 0) example_engine ''models deep /2'') = ([], Inr [0])"
proof -
  have a: "plain_term ''deep''" by (simp add: plain_term_def is_space_def)
  have b: "plain_term ''models''" by (simp add: plain_term_def is_space_def)
  have s: "''deep'' @ '' '' @ ''models'' @ '' /'' @ str_nat 2 = ''deep models /2''"
    "''models'' @ '' '' @ ''deep'' @ '' /'' @ str_nat 2 = ''models deep /2''" by code_simp+
  have v: "snd (process_query 4300 id (\<lambda>s. 0) example_engine ''deep models /2'') = ([], Inr [0])"
    unfolding example_engine_def by code_simp
  show ?thesis
    using proximity_symmetric [OF a b, of 4300 id "\<lambda>s. 0" example_engine 2] a b
    unfolding s v by simp
qed

subsection \<open>Malformed proximity queries\<close>

text \<open>
  A query that contains a slash goes to the proximity evaluator before any other
  classification. When it does not have the two-term form and the digits the pattern
  finds, if it finds any, are within the bound on conversions, the evaluator prints one
  line that names the error and returns the empty list; no exception is raised and the
  engine is left as it was.
\<close>

lemma malformed_reported_within_bound:
  assumes "contains ''/'' query" and "\<not> two_term_grammar query"
    and "\<And>a ds. re_match_proximity query = Some (a, ds) \<Longrightarrow> \<not> over_limit max_digits (length ds)"
  shows "process_query max_digits stem hash e query =
           (e, [if re_match_proximity query = None then invalid_format else only_two_terms],
            Inr [])"
proof (cases "re_match_proximity query")
  case None
  then show ?thesis using assms(1) by (simp add: process_query_def process_proximity_query_def)
next
  case (Some m)
  obtain a ds where m: "m = (a, ds)" by (cases m)
  from Some m have i: "python_int max_digits ds = Some (int (digits_value ds))"
    using assms(3) [of a ds] by (simp add: re_match_proximity_int)
  from assms(2) Some m have l: "length (split (lower a)) \<noteq> 2"
    by (simp add: two_term_grammar_def)
  then have "(case split (lower a) of [term1, term2] \<Rightarrow> X term1 term2 | _ \<Rightarrow> Y) = Y"
    for X :: "string \<Rightarrow> string \<Rightarrow> outcome" and Y
    by (auto split: list.splits)
  then show ?thesis using assms(1) Some m i
    by (simp add: process_query_def process_proximity_query_def)
qed

text \<open>
  Claim C6. The claim asks that every query with a slash that does not have the
  two-term form be reported, with the empty list returned and no exception. The
  evaluator converts the digits with \<open>int\<close> before it counts the terms, and outside any
  \<open>try\<close>. Under the bound of 4300 digits, the query \<open>a b c /\<close> followed by 4301 digits
  has three terms before the slash; the pattern matches it, and \<open>ValueError\<close> leaves
  \<open>process_query\<close>, where the same three terms with the single digit 1 are reported.
\<close>

theorem malformed_proximity_raises:
  "contains ''/'' (''a b c /'' @ ones 4301) \<and>
   re_match_proximity (''a b c /'' @ ones 4301) = Some (''a b c'', ones 4301) \<and>
   split (lower ''a b c'') = [''a'', ''b'', ''c''] \<and>
   \<not> two_term_grammar (''a b c /'' @ ones 4301) \<and>
   process_query 4300 id (\<lambda>s. 0) (init_engine ''Abstracts'' {}) (''a b c /'' @ ones 4301) =
     (init_engine ''Abstracts'' {}, [], Inl ValueError) \<and>
   process_query 4300 id (\<lambda>s. 0) (init_engine ''Abstracts'' {}) ''a b c /1'' =
     (init_engine ''Abstracts'' {}, [only_two_terms], Inr [])"
proof -
  have d: "digit_run (ones 4301)" by (rule digit_run_ones) simp
  have f: "''a b c'' = [] \<or> \<not> is_space (last ''a b c'')"
    "newline \<notin> set ''a b c''" "'' '' \<noteq> []" "blanks '' ''" "blanks []"
    by (simp_all add: blanks_def is_space_def newline_def)
  have n: "[] = [] \<or> [] = [newline]" by simp
  have m: "re_match_proximity (''a b c /'' @ ones 4301) = Some (''a b c'', ones 4301)"
    using re_match_form [OF f(1) f(2) f(3) f(4) f(5) d n] by simp
  have s: "split (lower ''a b c'') = [''a'', ''b'', ''c'']" by code_simp
  have g: "\<not> two_term_grammar (''a b c /'' @ ones 4301)"
    using m s by (simp add: two_term_grammar_def)
  have o: "over_limit 4300 (length (ones 4301))"
    by (simp add: length_ones over_limit_def)
  have c: "contains ''/'' (''a b c /'' @ ones 4301)"
    using contains_slash [of "''a b c ''" "ones 4301"] by simp
  have r: "process_query 4300 id (\<lambda>s. 0) (init_engine ''Abstracts'' {}) (''a b c /'' @ ones 4301) =
             (init_engine ''Abstracts'' {}, [], Inl ValueError)"
    using proximity_over_limit [OF m o, of id "init_engine ''Abstracts'' {}"]
      process_query_slash [OF c, of 4300 id "\<lambda>s. 0" "init_engine ''Abstracts'' {}"] by simp
  have v: "process_query 4300 id (\<lambda>s. 0) (init_engine ''Abstracts'' {}) ''a b c /1'' =
     (init_engine ''Abstracts'' {}, [only_two_terms], Inr [])"
    unfolding init_engine_def by code_simp
  show ?thesis using c m s g r v by simp
qed

subsection \<open>Queries and the state of the engine\<close>

lemma backed_present:
  assumes "backed e" and "d \<in> set (postings_of e t)"
  shows "position_list (positional_index e) t d \<noteq> None"
proof (cases "t \<in> fst ` set (inverted_index e)")
  case True
  with assms show ?thesis by (auto simp: backed_def list_all_iff)
next
  case False
  then have "map_of (inverted_index e) t = None" by (simp add: map_of_eq_None_iff)
  with assms(2) show ?thesis by (simp add: postings_of_def dict_get_default_def)
qed

lemma backedI:
  "(\<And>t d. d \<in> set (postings_of e t) \<Longrightarrow> position_list (positional_index e) t d \<noteq> None)
     \<Longrightarrow> backed e"
  by (simp add: backed_def list_all_iff)

lemma proximity_backed:
  assumes "backed e"
  shows "fst (process_proximity_query max_digits stem e query) = e"
proof -
  have "fst (foldl (proximity_step s1 s2 k) (positional_index e, [])
               (sorted_list_of_set (set (postings_of e s1) \<inter> set (postings_of e s2)))) =
          positional_index e" for s1 s2 k
    using backed_present [OF assms] by (intro proximity_fold_state) (simp add: finite_Int)
  then show ?thesis
    by (auto simp: process_proximity_query_def Let_def split_beta
          split: option.splits list.splits)
qed

lemma build_backed: "backed (fst (build_loop stem (init_engine folder stops) listing))"
proof (rule backedI)
  fix t d
  let ?e = "fst (build_loop stem (init_engine folder stops) listing)"
  let ?ds = "indexed_docs listing"
  assume "d \<in> set (postings_of ?e t)"
  then have "d \<in> fst ` {x \<in> set ?ds. case x of (d, fn, body) \<Rightarrow> token_positions stem stops body t \<noteq> []}"
    by (auto simp: postings_of_def dict_get_default_def fst_build_loop run_postings nonempty_def
          split: if_splits)
  then obtain fn body where "(d, fn, body) \<in> set ?ds" "token_positions stem stops body t \<noteq> []"
    by auto
  then have "concat (map (\<lambda>(d', fn, body). if d' = d then token_positions stem stops body t else []) ?ds) \<noteq> []"
    by force
  then show "position_list (positional_index ?e) t d \<noteq> None"
    by (simp add: fst_build_loop run_positions nonempty_def)
qed

text \<open>
  Claim C10, as amended. On an engine in which every document id of a posting list has
  its entry in the positional index under the same stem, which is what a build from the
  empty indexes of the constructor gives (\<open>build_backed\<close>), evaluating a query leaves
  the engine as it was: the document map, the inverted index and the positional index
  with their keys.
\<close>

theorem query_keeps_backed_engine:
  assumes "backed e"
  shows "fst (process_query max_digits stem hash e query) = e"
  using proximity_backed [OF assms]
  by (simp add: process_query_def)

theorem query_keeps_backed_engine_witness:
  "backed model_engine \<and>
   process_query 4300 id (\<lambda>s. 0) model_engine ''deep model /1'' = (model_engine, [], Inr [0])"
proof -
  have b: "backed model_engine" unfolding model_engine_def by code_simp
  have v: "snd (process_query 4300 id (\<lambda>s. 0) model_engine ''deep model /1'') = ([], Inr [0])"
    unfolding model_engine_def by code_simp
  have "fst (process_query 4300 id (\<lambda>s. 0) model_engine ''deep model /1'') = model_engine"
    using query_keeps_backed_engine [OF b, of 4300 id "\<lambda>s. 0" "''deep model /1''"] .
  with v b show ?thesis by (simp add: prod_eq_iff)
qed

text \<open>
  An engine loaded from a snapshot that lists a document for the stems \<open>deep\<close> and
  \<open>model\<close>, which are their own stems, and has no positions for them: \<open>_build_indexes\<close>
  takes the snapshot as it is, and the proximity query reads the missing entries
  through the default dictionaries and leaves them in the positional index.
\<close>

lemma stale_engine_loaded:
  "load_indexes 4300 (init_engine ''Abstracts'' {}) stale_snapshot = Inr stale_engine \<and>
   build_indexes 4300 id ''now'' (init_engine ''Abstracts'' {}) (Stored stale_snapshot) [] =
     Inr (stale_engine, Stored stale_snapshot)"
  unfolding stale_snapshot_def stale_engine_def init_engine_def by code_simp

theorem query_changes_stale_engine:
  "positional_index stale_engine = [] \<and>
   positional_index (fst (process_query 4300 id (\<lambda>s. 0) stale_engine ''deep model /1'')) =
     [(''deep'', [(0, [])]), (''model'', [(0, [])])] \<and>
   fst (process_query 4300 id (\<lambda>s. 0) stale_engine ''deep model /1'') \<noteq> stale_engine"
proof -
  have a: "positional_index stale_engine = []" by (simp add: stale_engine_def)
  have b: "positional_index (fst (process_query 4300 id (\<lambda>s. 0) stale_engine ''deep model /1'')) =
     [(''deep'', [(0, [])]), (''model'', [(0, [])])]"
    unfolding stale_engine_def by code_simp
  from a b have "fst (process_query 4300 id (\<lambda>s. 0) stale_engine ''deep model /1'') \<noteq> stale_engine"
    by auto
  with a b show ?thesis by simp
qed

subsection \<open>Boolean queries\<close>

lemma boolean_loop_left_to_right:
  "[] \<notin> set rest \<Longrightarrow>
   boolean_loop stem e result rest =
     left_to_right (\<lambda>term. set (postings_of e (stem (lower term)))) result rest"
  by (induction stem e result rest rule: boolean_loop.induct)
     (auto simp: Let_def lower_empty apply_operator_def)

text \<open>
  Claim C1, as amended. A query without a slash and without an opening bracket that
  passes the test for boolean queries, and that splits at the operators into a first
  term and at least one pair of an operator and a term, every term after the first
  being non-empty, is evaluated from left to right with no precedence: the running
  result starts as the posting set of the stem of the first term, each pair updates it
  by intersection, union or difference, and the final set is returned in ascending order.
  Nothing is printed and the engine is unchanged.
\<close>

theorem boolean_left_to_right:
  assumes "\<not> contains ''/'' query"
    and "contains '' AND '' query \<or> contains '' OR '' query \<or> contains ''NOT '' query"
    and "\<not> contains ''('' query"
    and "re_split query = t # rest" and "rest \<noteq> []" and "[] \<notin> set rest"
  shows "process_query max_digits stem hash e query =
           (e, [], Inr (sorted_list_of_set
                   (left_to_right (\<lambda>term. set (postings_of e (stem (lower term))))
                      (set (postings_of e (stem (lower t)))) rest)))"
proof -
  obtain a b where r: "rest = a # b" using assms(5) by (cases rest) auto
  show ?thesis
    using assms boolean_loop_left_to_right [OF assms(6), of stem e]
    by (simp add: process_query_def process_boolean_query_def flat_boolean_query_def r)
qed

theorem boolean_left_to_right_witness:
  "\<not> contains ''/'' ''deep OR time NOT series'' \<and>
   contains '' OR '' ''deep OR time NOT series'' \<and>
   \<not> contains ''('' ''deep OR time NOT series'' \<and>
   re_split ''deep OR time NOT series'' = [''deep'', ''OR'', ''time'', ''NOT'', ''series''] \<and>
   process_query 4300 id (\<lambda>s. 0) example_engine ''deep OR time NOT series'' =
     (example_engine, [], Inr [0])"
proof -
  have a: "\<not> contains ''/'' ''deep OR time NOT series''" by simp
  have b: "contains '' AND '' ''deep OR time NOT series'' \<or>
           contains '' OR '' ''deep OR time NOT series'' \<or>
           contains ''NOT '' ''deep OR time NOT series''" by simp
  have b': "contains '' OR '' ''deep OR time NOT series''" by simp
  have c: "\<not> contains ''('' ''deep OR time NOT series''" by simp
  have d: "re_split ''deep OR time NOT series'' = ''deep'' # [''OR'', ''time'', ''NOT'', ''series'']"
    by code_simp
  have f: "[''OR'', ''time'', ''NOT'', ''series''] \<noteq> []" by simp
  have g: "[] \<notin> set [''OR'', ''time'', ''NOT'', ''series'']" by simp
  have v: "sorted_list_of_set
             (left_to_right (\<lambda>term. set (postings_of example_engine (id (lower term))))
                (set (postings_of example_engine (id (lower ''deep''))))
                [''OR'', ''time'', ''NOT'', ''series'']) = [0]"
    unfolding example_engine_def by code_simp
  show ?thesis
    using boolean_left_to_right [OF a b c d f g, of 4300 id "\<lambda>s. 0" example_engine] a b' c d
    unfolding v by simp
qed

text \<open>
  A query with brackets is given to the bracket evaluator, and an operator that no term
  follows is ignored: both return document 0 where the evaluation from left to right of
  the split query gives nothing.
\<close>

theorem boolean_left_to_right_counterexample:
  "snd (process_query 4300 id (\<lambda>s. 0) example_engine ''deep AND (time OR learning)'') = ([], Inr [0]) \<and>
   spec_boolean id example_engine ''deep AND (time OR learning)'' = [] \<and>
   snd (process_query 4300 id (\<lambda>s. 0) example_engine ''deep AND '') = ([], Inr [0]) \<and>
   spec_boolean id example_engine ''deep AND '' = []"
  unfolding example_engine_def by code_simp

text \<open>
  Claim C7, as amended. A query without a slash is evaluated as a boolean query exactly
  when it contains \<open>AND\<close> or \<open>OR\<close> between two space characters, or \<open>NOT\<close> followed
  by a space character (nothing is asked of the character before \<open>NOT\<close>). Every other
  query without a slash is looked up as one term, trimmed and lower-cased as a whole.
\<close>

theorem slash_free_classification:
  assumes "\<not> contains ''/'' query"
  shows "process_query max_digits stem hash e query =
           (e, [],
            if contains '' AND '' query \<or> contains '' OR '' query \<or> contains ''NOT '' query
            then (case process_boolean_query max_digits stem hash e query of
                    None \<Rightarrow> Inl RecursionError
                  | Some r \<Rightarrow> r)
            else Inr (sort (postings_of e (stem (lower (strip query))))))"
  using assms by (simp add: process_query_def)

theorem slash_free_classification_witness:
  "\<not> contains ''/'' '' Deep '' \<and>
   process_query 4300 id (\<lambda>s. 0) example_engine '' Deep '' = (example_engine, [], Inr [0])"
proof -
  have a: "\<not> contains ''/'' '' Deep ''" by simp
  have g: "\<not> (contains '' AND '' '' Deep '' \<or> contains '' OR '' '' Deep '' \<or> contains ''NOT '' '' Deep '')"
    by simp
  have v: "sort (postings_of example_engine (id (lower (strip '' Deep '')))) = [0]"
    unfolding example_engine_def by code_simp
  show ?thesis
    using slash_free_classification [OF a, of 4300 id "\<lambda>s. 0" example_engine] a g
    unfolding v by simp
qed

text \<open>
  An operator between tab characters is a whitespace-delimited word, yet the query is
  looked up as one term, where the boolean evaluator finds document 0. The query
  \<open>KNOT\<close> followed by a space has no operator word, yet it is given to the boolean
  evaluator, which does not trim it and finds nothing, where the trimmed term is in
  document 0.
\<close>

theorem operator_word_counterexample:
  "\<not> contains ''/'' tab_query \<and> has_operator_word tab_query \<and>
   snd (process_query 4300 id (\<lambda>s. 0) example_engine tab_query) = ([], Inr []) \<and>
   process_boolean_query 4300 id (\<lambda>s. 0) example_engine tab_query = Some (Inr [0]) \<and>
   \<not> contains ''/'' ''KNOT '' \<and> \<not> has_operator_word ''KNOT '' \<and>
   snd (process_query 4300 id (\<lambda>s. 0) knot_engine ''KNOT '') = ([], Inr []) \<and>
   sort (postings_of knot_engine (id (lower (strip ''KNOT '')))) = [0]"
  unfolding example_engine_def knot_engine_def tab_query_def has_operator_word_def by code_simp

subsection \<open>Saving and loading\<close>

lemma dict_set_twice: "dict_set k v (dict_set k v' m) = dict_set k v m"
  by (induction m) auto

lemma fold_dict_set_distinct:
  "distinct (map fst acc @ map (\<lambda>x. fst (f x)) xs) \<Longrightarrow>
   foldl (\<lambda>d x. dict_set (fst (f x)) (snd (f x)) d) acc xs = acc @ map f xs"
proof (induction xs arbitrary: acc)
  case Nil
  then show ?case by simp
next
  case (Cons x xs)
  from Cons.prems have n: "fst (f x) \<notin> fst ` set acc" by auto
  have "dict_set (fst (f x)) (snd (f x)) acc = acc @ [f x]"
    using dict_set_append [OF n] by simp
  moreover have "distinct (map fst (acc @ [f x]) @ map (\<lambda>x. fst (f x)) xs)"
    using Cons.prems by auto
  ultimately show ?case using Cons.IH [of "acc @ [f x]"] by simp
qed

lemma dict_comp_distinct:
  "distinct (map (\<lambda>x. fst (f x)) xs) \<Longrightarrow> dict_comp f xs = map f xs"
  unfolding dict_comp_def using fold_dict_set_distinct [of "[]" f xs] by simp

lemma distinct_str_keys:
  "distinct (map fst xs) \<Longrightarrow> distinct (map (\<lambda>x. fst (case x of (d, v) \<Rightarrow> (str_int d, g d v))) xs)"
proof -
  assume d: "distinct (map fst xs)"
  have e: "(\<lambda>x. fst (case x of (d, v) \<Rightarrow> (str_int d, g d v))) = (\<lambda>x. str_int (fst x))"
    by (simp add: fun_eq_iff split_beta)
  from d have dx: "distinct xs" and fi: "inj_on fst (set xs)"
    by (simp_all add: distinct_map)
  have i: "inj_on (\<lambda>x. str_int (fst x)) (set xs)"
    using fi str_int_inj by (auto simp: inj_on_def)
  show ?thesis
    unfolding e using dx i by (simp add: distinct_map)
qed

lemma distinct_same_keys:
  "distinct (map fst xs) \<Longrightarrow> distinct (map (\<lambda>x. fst (case x of (t, v) \<Rightarrow> (t, g t v))) xs)"
  by (simp add: split_beta)

lemma load_doc_ids_saved:
  "distinct (map fst acc @ map fst xs) \<Longrightarrow> \<forall>d\<in>fst ` set xs. fits max_digits d \<Longrightarrow>
   load_doc_ids max_digits acc (map (\<lambda>(d, fn). (str_int d, \<lparr>json_filename = fn, json_path = g fn\<rparr>)) xs) =
     Some (acc @ xs)"
proof (induction xs arbitrary: acc)
  case Nil
  then show ?case by simp
next
  case (Cons x xs)
  obtain d fn where x: "x = (d, fn)" by (cases x)
  from Cons.prems have n: "d \<notin> fst ` set acc" by (auto simp: x)
  from Cons.prems have f: "fits max_digits d" "\<forall>d\<in>fst ` set xs. fits max_digits d"
    by (auto simp: x)
  have "distinct (map fst (acc @ [(d, fn)]) @ map fst xs)" using Cons.prems by (auto simp: x)
  then show ?case
    using Cons.IH [of "acc @ [(d, fn)]"] dict_set_append [OF n] f
    by (simp add: x python_int_str_int)
qed

lemma load_inverted_saved:
  "distinct (map fst acc @ map fst xs) \<Longrightarrow>
   foldl (\<lambda>d (term, info). dict_set term (postings info) d) acc
     (map (\<lambda>(term, ps). (term, \<lparr>document_frequency = length ps, postings = ps\<rparr>)) xs) =
   acc @ xs"
proof (induction xs arbitrary: acc)
  case Nil
  then show ?case by simp
next
  case (Cons x xs)
  obtain t ps where x: "x = (t, ps)" by (cases x)
  from Cons.prems have n: "t \<notin> fst ` set acc" by (auto simp: x)
  have "distinct (map fst (acc @ [(t, ps)]) @ map fst xs)" using Cons.prems by (auto simp: x)
  then show ?case
    using Cons.IH [of "acc @ [(t, ps)]"] dict_set_append [OF n]
    by (simp add: x)
qed

lemma load_inner_present:
  "map_of pidx term = Some cur \<Longrightarrow> distinct (map fst (cur @ inner)) \<Longrightarrow>
   \<forall>d\<in>fst ` set inner. fits max_digits d \<Longrightarrow>
   load_positions_inner max_digits pidx term (map (\<lambda>(d, ps). (str_int d, ps)) inner) =
     (dict_set term (cur @ inner) pidx, True)"
proof (induction inner arbitrary: pidx cur)
  case Nil
  then show ?case by (simp add: dict_set_same)
next
  case (Cons x inner)
  obtain d ps where x: "x = (d, ps)" by (cases x)
  from Cons.prems have n: "d \<notin> fst ` set cur" by (auto simp: x)
  let ?p = "dict_set term (cur @ [(d, ps)]) pidx"
  have m: "map_of ?p term = Some (cur @ [(d, ps)])" by (simp add: map_of_dict_set)
  have dd: "distinct (map fst ((cur @ [(d, ps)]) @ inner))" using Cons.prems by (auto simp: x)
  from Cons.prems(3) have f: "fits max_digits d" "\<forall>d\<in>fst ` set inner. fits max_digits d"
    by (auto simp: x)
  have "load_positions_inner max_digits pidx term (map (\<lambda>(d, ps). (str_int d, ps)) (x # inner)) =
          load_positions_inner max_digits ?p term (map (\<lambda>(d, ps). (str_int d, ps)) inner)"
    using Cons.prems(1) dict_set_append [OF n] f(1)
    by (simp add: x dd_getitem_def python_int_str_int)
  also have "\<dots> = (dict_set term ((cur @ [(d, ps)]) @ inner) ?p, True)"
    using Cons.IH [OF m dd f(2)] .
  finally show ?case by (simp add: x dict_set_twice)
qed

lemma dict_set_last: "k \<notin> fst ` set m \<Longrightarrow> dict_set k v (m @ [(k, v')]) = m @ [(k, v)]"
  by (induction m) auto

lemma load_inner_absent:
  assumes "term \<notin> fst ` set pidx" and "distinct (map fst inner)"
    and "\<forall>d\<in>fst ` set inner. fits max_digits d"
  shows "load_positions_inner max_digits pidx term (map (\<lambda>(d, ps). (str_int d, ps)) inner) =
           (if inner = [] then pidx else pidx @ [(term, inner)], True)"
proof (cases inner)
  case Nil
  then show ?thesis by simp
next
  case (Cons x rest)
  obtain d ps where x: "x = (d, ps)" by (cases x)
  let ?p = "pidx @ [(term, [(d, ps)])]"
  from assms(1) have none: "map_of pidx term = None" by (simp add: map_of_eq_None_iff)
  have m: "map_of ?p term = Some [(d, ps)]" using none by (simp add: map_add_def)
  have dd: "distinct (map fst ([(d, ps)] @ rest))" using assms(2) by (simp add: Cons x)
  from assms(3) have f: "fits max_digits d" "\<forall>d\<in>fst ` set rest. fits max_digits d"
    by (auto simp: Cons x)
  have "load_positions_inner max_digits pidx term (map (\<lambda>(d, ps). (str_int d, ps)) inner) =
          load_positions_inner max_digits ?p term (map (\<lambda>(d, ps). (str_int d, ps)) rest)"
    using none dict_set_last [OF assms(1)] f(1)
    by (simp add: Cons x dd_getitem_def python_int_str_int)
  also have "\<dots> = (dict_set term ([(d, ps)] @ rest) ?p, True)"
    using load_inner_present [OF m dd f(2)] .
  finally show ?thesis using dict_set_last [OF assms(1)] by (simp add: Cons x)
qed

lemma load_positions_saved:
  "distinct (map fst acc @ map fst xs) \<Longrightarrow>
   list_all (\<lambda>(t, inner). distinct (map fst inner)) xs \<Longrightarrow>
   list_all (\<lambda>(t, inner). \<forall>d\<in>fst ` set inner. fits max_digits d) xs \<Longrightarrow>
   load_positions max_digits acc
     (map (\<lambda>(term, inner). (term, map (\<lambda>(d, ps). (str_int d, ps)) inner)) xs) =
     (acc @ filter (\<lambda>(t, inner). inner \<noteq> []) xs, True)"
proof (induction xs arbitrary: acc)
  case Nil
  then show ?case by simp
next
  case (Cons x xs)
  obtain t inner where x: "x = (t, inner)" by (cases x)
  from Cons.prems have n: "t \<notin> fst ` set acc" and di: "distinct (map fst inner)"
    and fi: "\<forall>d\<in>fst ` set inner. fits max_digits d"
    by (auto simp: x)
  let ?acc = "if inner = [] then acc else acc @ [(t, inner)]"
  have "distinct (map fst ?acc @ map fst xs)" using Cons.prems(1) by (auto simp: x)
  moreover have "list_all (\<lambda>(t, inner). distinct (map fst inner)) xs"
    using Cons.prems(2) by simp
  moreover have "list_all (\<lambda>(t, inner). \<forall>d\<in>fst ` set inner. fits max_digits d) xs"
    using Cons.prems(3) by simp
  ultimately have ih: "load_positions max_digits ?acc
     (map (\<lambda>(term, inner). (term, map (\<lambda>(d, ps). (str_int d, ps)) inner)) xs) =
     (?acc @ filter (\<lambda>(t, inner). inner \<noteq> []) xs, True)"
    by (rule Cons.IH)
  show ?case
    using load_inner_absent [OF n di fi] ih by (simp add: x)
qed

lemma map_of_filter_distinct:
  "distinct (map fst p) \<Longrightarrow>
   map_of (filter P p) t =
     (case map_of p t of None \<Rightarrow> None | Some v \<Rightarrow> if P (t, v) then Some v else None)"
proof (induction p)
  case Nil
  then show ?case by simp
next
  case (Cons x p)
  obtain k v where x: "x = (k, v)" by (cases x)
  show ?case
  proof (cases "k = t")
    case True
    with Cons.prems have "map_of p t = None" by (auto simp: x map_of_eq_None_iff)
    then show ?thesis using Cons True by (simp add: x)
  next
    case False
    then show ?thesis using Cons by (simp add: x)
  qed
qed

lemma position_list_filter:
  "distinct (map fst p) \<Longrightarrow>
   position_list (filter (\<lambda>(t, inner). inner \<noteq> []) p) t d = position_list p t d"
  by (auto simp: position_list_def map_of_filter_distinct split: option.splits)

lemma distinct_str_fst: "distinct (map fst xs) \<Longrightarrow> distinct (map (\<lambda>x. str_int (fst x)) xs)"
  using distinct_str_keys [of xs "\<lambda>d v. v"] by (simp add: split_beta)

lemma index_data_fields:
  assumes "dict_ok e"
  shows "document_mapping (index_data now e) =
           map (\<lambda>(d, fn). (str_int d, \<lparr>json_filename = fn, json_path = path_join (docs_folder e) fn\<rparr>))
             (doc_ids e)"
    and "json_inverted_index (index_data now e) =
           map (\<lambda>(term, ps). (term, \<lparr>document_frequency = length ps, postings = ps\<rparr>))
             (inverted_index e)"
    and "json_positional_index (index_data now e) =
           map (\<lambda>(term, inner). (term, map (\<lambda>(d, ps). (str_int d, ps)) inner))
             (positional_index e)"
proof -
  from assms have a: "distinct (map fst (doc_ids e))" "distinct (map fst (inverted_index e))"
    "distinct (map fst (positional_index e))"
    and b: "\<And>t inner. (t, inner) \<in> set (positional_index e) \<Longrightarrow> distinct (map fst inner)"
    by (auto simp: dict_ok_def list_all_iff)
  have "dict_comp (\<lambda>(doc_id, filename).
            (str_int doc_id,
             \<lparr>json_filename = filename, json_path = path_join (docs_folder e) filename\<rparr>))
          (doc_ids e) =
        map (\<lambda>(doc_id, filename).
            (str_int doc_id,
             \<lparr>json_filename = filename, json_path = path_join (docs_folder e) filename\<rparr>))
          (doc_ids e)"
    by (rule dict_comp_distinct) (simp add: split_beta distinct_str_fst a)
  then show "document_mapping (index_data now e) =
           map (\<lambda>(d, fn). (str_int d, \<lparr>json_filename = fn, json_path = path_join (docs_folder e) fn\<rparr>))
             (doc_ids e)"
    by (simp add: index_data_def)
  have "dict_comp (\<lambda>(term, ps). (term, \<lparr>document_frequency = length ps, postings = ps\<rparr>))
          (inverted_index e) =
        map (\<lambda>(term, ps). (term, \<lparr>document_frequency = length ps, postings = ps\<rparr>))
          (inverted_index e)"
    by (rule dict_comp_distinct) (simp add: split_beta a)
  then show "json_inverted_index (index_data now e) =
           map (\<lambda>(term, ps). (term, \<lparr>document_frequency = length ps, postings = ps\<rparr>))
             (inverted_index e)"
    by (simp add: index_data_def)
  have i: "dict_comp (\<lambda>(doc_id, positions). (str_int doc_id, positions)) inner =
             map (\<lambda>(d, ps). (str_int d, ps)) inner"
    if "(t, inner) \<in> set (positional_index e)" for t inner
    by (rule dict_comp_distinct) (simp add: split_beta distinct_str_fst b [OF that])
  have "dict_comp (\<lambda>(term, inner).
            (term, dict_comp (\<lambda>(doc_id, positions). (str_int doc_id, positions)) inner))
          (positional_index e) =
        map (\<lambda>(term, inner).
            (term, dict_comp (\<lambda>(doc_id, positions). (str_int doc_id, positions)) inner))
          (positional_index e)"
    by (rule dict_comp_distinct) (simp add: split_beta a)
  also have "\<dots> = map (\<lambda>(term, inner). (term, map (\<lambda>(d, ps). (str_int d, ps)) inner))
             (positional_index e)"
    using i by (auto simp: split_beta)
  finally show "json_positional_index (index_data now e) =
           map (\<lambda>(term, inner). (term, map (\<lambda>(d, ps). (str_int d, ps)) inner))
             (positional_index e)"
    by (simp add: index_data_def)
qed


lemma ints_fit_none: "ints_fit 0 e"
  by (simp add: ints_fit_def pidx_fits_def fits_none list_all_iff split_beta)

lemma pidx_fitsD:
  "pidx_fits max_digits p \<Longrightarrow> (t, inner) \<in> set p \<Longrightarrow> (d, ps) \<in> set inner \<Longrightarrow>
   fits max_digits d \<and> (\<forall>x\<in>set ps. fits max_digits x)"
  by (fastforce simp: pidx_fits_def list_all_iff)



lemma load_index_data:
  assumes "dict_ok e" and "ints_fit max_digits e"
  shows "load_indexes max_digits e0 (index_data now e) =
           Inr (e0\<lparr>doc_ids := doc_ids e, inverted_index := inverted_index e,
                   positional_index := filter (\<lambda>(t, inner). inner \<noteq> []) (positional_index e)\<rparr>)"
proof -
  from assms(1) have a: "distinct (map fst (doc_ids e))" "distinct (map fst (inverted_index e))"
    "distinct (map fst (positional_index e))"
    and b: "list_all (\<lambda>(t, inner). distinct (map fst inner)) (positional_index e)"
    by (auto simp: dict_ok_def)
  from assms(2) have f: "\<forall>d\<in>fst ` set (doc_ids e). fits max_digits d"
    and g: "list_all (\<lambda>(t, inner). \<forall>d\<in>fst ` set inner. fits max_digits d) (positional_index e)"
    by (auto simp: ints_fit_def list_all_iff dest: pidx_fitsD)
  have 1: "load_doc_ids max_digits [] (document_mapping (index_data now e)) = Some (doc_ids e)"
    unfolding index_data_fields [OF assms(1)]
    using load_doc_ids_saved [of "[]" "doc_ids e" max_digits "path_join (docs_folder e)"] a(1) f
    by simp
  have 2: "foldl (\<lambda>d (term, info). dict_set term (postings info) d) []
             (json_inverted_index (index_data now e)) = inverted_index e"
    unfolding index_data_fields [OF assms(1)]
    using load_inverted_saved [of "[]" "inverted_index e"] a(2) by simp
  have 3: "load_positions max_digits [] (json_positional_index (index_data now e)) =
             (filter (\<lambda>(t, inner). inner \<noteq> []) (positional_index e), True)"
    unfolding index_data_fields [OF assms(1)]
    using load_positions_saved [of "[]" "positional_index e" max_digits] a(3) b g by simp
  show ?thesis
    by (simp add: load_indexes_def 1 2 3 Let_def)
qed




subsection \<open>Every engine holds dictionaries\<close>

text \<open>
  The constructor's engine satisfies \<open>dict_ok\<close>, and the build loop, a completed load
  and every query keep it: the hypothesis of the round trip holds of every engine the
  program reaches.
\<close>

lemma keys_dict_set:
  "map fst (dict_set k v m) = (if k \<in> fst ` set m then map fst m else map fst m @ [k])"
  by (induction m) auto

lemma distinct_dict_set: "distinct (map fst m) \<Longrightarrow> distinct (map fst (dict_set k v m))"
  by (simp add: keys_dict_set)

lemma set_dict_set: "set (dict_set k v m) \<subseteq> insert (k, v) (set m)"
  by (induction m) auto

lemma pidx_ok_set:
  "pidx_ok p \<Longrightarrow> distinct (map fst inner) \<Longrightarrow> pidx_ok (dict_set t inner p)"
  using set_dict_set [of t inner p]
  by (auto simp: pidx_ok_def distinct_dict_set list_all_iff)

lemma pidx_ok_lookup: "pidx_ok p \<Longrightarrow> map_of p t = Some inner \<Longrightarrow> distinct (map fst inner)"
  by (auto simp: pidx_ok_def list_all_iff dest: map_of_SomeD)

lemma pidx_ok_getitem:
  assumes "pidx_ok p"
  shows "pidx_ok (snd (dd_getitem [] p t))" and "distinct (map fst (fst (dd_getitem [] p t)))"
  using assms pidx_ok_lookup [OF assms, of t]
  by (auto simp: dd_getitem_def pidx_ok_def map_of_eq_None_iff split: option.splits)

lemma inner_getitem:
  "distinct (map fst inner) \<Longrightarrow> distinct (map fst (snd (dd_getitem dflt inner d)))"
  by (auto simp: dd_getitem_def map_of_eq_None_iff split: option.splits)

lemma pidx_ok_add_position: "pidx_ok p \<Longrightarrow> pidx_ok (add_position p t d pos)"
  unfolding add_position_def split_beta Let_def
  by (intro pidx_ok_set distinct_dict_set inner_getitem pidx_ok_getitem)

lemma pidx_ok_pos_getitem: "pidx_ok p \<Longrightarrow> pidx_ok (snd (pos_getitem p t d))"
  unfolding pos_getitem_def split_beta Let_def snd_conv
  by (intro pidx_ok_set inner_getitem pidx_ok_getitem)

lemma pidx_ok_fold_positions:
  "pidx_ok p \<Longrightarrow> pidx_ok (foldl (\<lambda>p (term, position). add_position p term d position) p toks)"
  by (induction toks arbitrary: p) (auto simp: pidx_ok_add_position)

lemma distinct_add_posting: "distinct (map fst i) \<Longrightarrow> distinct (map fst (add_posting i t d))"
  by (auto simp: add_posting_def dd_getitem_def distinct_dict_set map_of_eq_None_iff
        split: option.splits)

lemma distinct_fold_postings:
  "distinct (map fst i) \<Longrightarrow> distinct (map fst (foldl (\<lambda>i term. add_posting i term d) i ts))"
  by (induction ts arbitrary: i) (auto simp: distinct_add_posting)

lemma dict_ok_pidx: "dict_ok e = (distinct (map fst (doc_ids e)) \<and> distinct (map fst (inverted_index e)) \<and> pidx_ok (positional_index e))"
  by (auto simp: dict_ok_def pidx_ok_def)

lemma dict_ok_init: "dict_ok (init_engine folder stops)"
  by (simp add: dict_ok_def init_engine_def)

lemma dict_ok_index_document: "dict_ok e \<Longrightarrow> dict_ok (index_document stem e d fn body)"
  by (simp add: dict_ok_pidx index_document_def Let_def distinct_dict_set
        pidx_ok_fold_positions distinct_fold_postings)

lemma dict_ok_run: "dict_ok e \<Longrightarrow> dict_ok (foldl (index_doc stem) e ds)"
  by (induction ds arbitrary: e) (auto simp: index_doc_def dict_ok_index_document)

lemma dict_ok_build: "dict_ok e \<Longrightarrow> dict_ok (fst (build_loop stem e listing))"
  by (simp add: fst_build_loop dict_ok_run)

lemma pidx_ok_proximity_fold:
  "pidx_ok (fst st) \<Longrightarrow> pidx_ok (fst (foldl (proximity_step s1 s2 k) st ds))"
proof (induction ds arbitrary: st)
  case Nil
  then show ?case by simp
next
  case (Cons d ds)
  obtain p acc where st: "st = (p, acc)" by (cases st)
  show ?case
    using Cons.prems
    by (auto simp: st proximity_step_eq intro!: Cons.IH pidx_ok_pos_getitem)
qed

lemma dict_ok_query:
  "dict_ok e \<Longrightarrow> dict_ok (fst (process_query max_digits stem hash e query))"
  using pidx_ok_proximity_fold [of "(positional_index e, [])"]
  by (auto simp: process_query_def process_proximity_query_def dict_ok_pidx Let_def split_beta
        split: option.splits list.splits)

lemma distinct_load_doc_ids:
  "distinct (map fst acc) \<Longrightarrow> load_doc_ids max_digits acc xs = Some dm \<Longrightarrow>
   distinct (map fst dm)"
  by (induction max_digits acc xs rule: load_doc_ids.induct)
     (auto simp: distinct_dict_set split: option.splits)

lemma distinct_load_inverted:
  "distinct (map fst acc) \<Longrightarrow>
   distinct (map fst (foldl (\<lambda>d (term, info). dict_set term (postings info) d) acc xs))"
  by (induction xs arbitrary: acc) (auto simp: distinct_dict_set)

lemma pidx_ok_load_inner:
  "pidx_ok p \<Longrightarrow> pidx_ok (fst (load_positions_inner max_digits p t xs))"
proof (induction xs arbitrary: p)
  case Nil
  then show ?case by simp
next
  case (Cons x xs)
  obtain k positions where x: "x = (k, positions)" by (cases x)
  show ?case
  proof (cases "python_int max_digits k")
    case None
    then show ?thesis using Cons.prems by (simp add: x split_beta pidx_ok_getitem)
  next
    case (Some d)
    have "pidx_ok (dict_set t (dict_set d positions (fst (dd_getitem [] p t)))
             (snd (dd_getitem [] p t)))"
      using Cons.prems by (intro pidx_ok_set distinct_dict_set pidx_ok_getitem)
    then show ?thesis
      using Cons.IH Some by (simp add: x split_beta)
  qed
qed

lemma pidx_ok_load: "pidx_ok p \<Longrightarrow> pidx_ok (fst (load_positions max_digits p xs))"
proof (induction xs arbitrary: p)
  case Nil
  then show ?case by simp
next
  case (Cons x xs)
  obtain t ps where x: "x = (t, ps)" by (cases x)
  obtain p1 ok where r: "load_positions_inner max_digits p t ps = (p1, ok)"
    by (cases "load_positions_inner max_digits p t ps")
  have p1: "pidx_ok p1" using pidx_ok_load_inner [OF Cons.prems, of max_digits t ps] r by simp
  show ?case
    using Cons.IH [OF p1] r p1 by (cases ok) (simp_all add: x)
qed

lemma dict_ok_load: "load_indexes max_digits e0 data = Inr e \<Longrightarrow> dict_ok e"
  using pidx_ok_load [of "[]" max_digits "json_positional_index data"]
    distinct_load_inverted [of "[]" "json_inverted_index data"]
    distinct_load_doc_ids [of "[]" max_digits "document_mapping data"]
  by (auto simp: load_indexes_def dict_ok_pidx Let_def pidx_ok_def
        split: option.splits prod.splits bool.splits)

subsection \<open>Every engine holds integers within the bound\<close>

text \<open>
  The constructor's engine satisfies \<open>ints_fit\<close>, and a load, a query and a build keep
  it: a load takes its document ids from \<open>int\<close> and its lists from a snapshot that the
  JSON decoder has read under the same bound, a query adds nothing but document ids of
  posting lists, and a build adds indexes of the directory listing and of the tokens of
  a text, which are below \<open>2 ^ 63\<close> in Python and ask here for a listing and texts of at
  most \<open>10 ^ max_digits\<close> members.
\<close>

lemma ints_fit_init: "ints_fit max_digits (init_engine folder stops)"
  by (simp add: ints_fit_def pidx_fits_def init_engine_def)

lemma pidx_fits_iff:
  "pidx_fits max_digits p =
     (\<forall>t inner. (t, inner) \<in> set p \<longrightarrow>
        (\<forall>d ps. (d, ps) \<in> set inner \<longrightarrow> fits max_digits d \<and> (\<forall>x\<in>set ps. fits max_digits x)))"
  by (fastforce simp: pidx_fits_def list_all_iff)

lemma pidx_fits_set:
  assumes "pidx_fits max_digits p"
    and "\<And>d ps. (d, ps) \<in> set inner \<Longrightarrow> fits max_digits d \<and> (\<forall>x\<in>set ps. fits max_digits x)"
  shows "pidx_fits max_digits (dict_set t inner p)"
  unfolding pidx_fits_iff
proof (intro allI impI)
  fix t' inner' d ps
  assume a: "(t', inner') \<in> set (dict_set t inner p)" and b: "(d, ps) \<in> set inner'"
  from a set_dict_set [of t inner p] have "(t', inner') = (t, inner) \<or> (t', inner') \<in> set p"
    by auto
  then show "fits max_digits d \<and> (\<forall>x\<in>set ps. fits max_digits x)"
    using assms b by (auto simp: pidx_fits_iff)
qed

lemma pidx_fits_getitem:
  assumes "pidx_fits max_digits p"
  shows "pidx_fits max_digits (snd (dd_getitem [] p t))"
    and "(d, ps) \<in> set (fst (dd_getitem [] p t)) \<Longrightarrow>
           fits max_digits d \<and> (\<forall>x\<in>set ps. fits max_digits x)"
  using assms
  by (auto simp: dd_getitem_def pidx_fits_iff split: option.splits dest!: map_of_SomeD)

lemma pidx_fits_store:
  assumes "pidx_fits max_digits p" and "fits max_digits d" and "\<forall>x\<in>set ps. fits max_digits x"
  shows "pidx_fits max_digits
           (dict_set t (dict_set d ps (fst (dd_getitem [] p t))) (snd (dd_getitem [] p t)))"
proof (rule pidx_fits_set)
  show "pidx_fits max_digits (snd (dd_getitem [] p t))"
    using assms(1) by (rule pidx_fits_getitem)
next
  fix d' ps'
  assume "(d', ps') \<in> set (dict_set d ps (fst (dd_getitem [] p t)))"
  with set_dict_set [of d ps "fst (dd_getitem [] p t)"]
  have "(d', ps') = (d, ps) \<or> (d', ps') \<in> set (fst (dd_getitem [] p t))" by auto
  then show "fits max_digits d' \<and> (\<forall>x\<in>set ps'. fits max_digits x)"
    using assms pidx_fits_getitem(2) [OF assms(1)] by blast
qed

lemma pidx_fits_pos_getitem:
  assumes "pidx_fits max_digits p" and "fits max_digits d"
  shows "pidx_fits max_digits (snd (pos_getitem p t d))"
proof -
  let ?inner = "fst (dd_getitem [] p t)"
  have "snd (pos_getitem p t d) =
          dict_set t (snd (dd_getitem [] ?inner d)) (snd (dd_getitem [] p t))"
    by (simp add: pos_getitem_def split_beta Let_def)
  moreover have "pidx_fits max_digits
                   (dict_set t (snd (dd_getitem [] ?inner d)) (snd (dd_getitem [] p t)))"
  proof (rule pidx_fits_set)
    show "pidx_fits max_digits (snd (dd_getitem [] p t))"
      using assms(1) by (rule pidx_fits_getitem)
  next
    fix d' ps'
    assume "(d', ps') \<in> set (snd (dd_getitem [] ?inner d))"
    then have "(d', ps') = (d, []) \<or> (d', ps') \<in> set ?inner"
      by (auto simp: dd_getitem_def split: option.splits)
    then show "fits max_digits d' \<and> (\<forall>x\<in>set ps'. fits max_digits x)"
      using assms(2) pidx_fits_getitem(2) [OF assms(1)] by auto
  qed
  ultimately show ?thesis by simp
qed

lemma pidx_fits_proximity_fold:
  "pidx_fits max_digits (fst st) \<Longrightarrow> \<forall>d\<in>set ds. fits max_digits d \<Longrightarrow>
   pidx_fits max_digits (fst (foldl (proximity_step s1 s2 k) st ds))"
proof (induction ds arbitrary: st)
  case Nil
  then show ?case by simp
next
  case (Cons d ds)
  obtain p acc where st: "st = (p, acc)" by (cases st)
  from Cons.prems have d: "fits max_digits d" and p: "pidx_fits max_digits p"
    by (simp_all add: st)
  have "pidx_fits max_digits (snd (pos_getitem (snd (pos_getitem p s1 d)) s2 d))"
    using p d by (intro pidx_fits_pos_getitem)
  then show ?case
    using Cons.prems(2) by (auto simp: st proximity_step_eq intro!: Cons.IH)
qed

lemma postings_fit:
  "list_all (\<lambda>(t, ps). list_all (fits max_digits) ps) (inverted_index e) \<Longrightarrow>
   d \<in> set (postings_of e t) \<Longrightarrow> fits max_digits d"
proof -
  assume a: "list_all (\<lambda>(t, ps). list_all (fits max_digits) ps) (inverted_index e)"
    and d: "d \<in> set (postings_of e t)"
  show "fits max_digits d"
  proof (cases "map_of (inverted_index e) t")
    case None
    with d show ?thesis by (simp add: postings_of_def dict_get_default_def)
  next
    case (Some ps)
    with d have ps: "d \<in> set ps" by (simp add: postings_of_def dict_get_default_def)
    from Some have "(t, ps) \<in> set (inverted_index e)" by (rule map_of_SomeD)
    with a have "list_all (fits max_digits) ps" by (auto simp: list_all_iff)
    with ps show ?thesis by (simp add: list_all_iff)
  qed
qed

lemma ints_fit_query:
  assumes "ints_fit max_digits e"
  shows "ints_fit max_digits (fst (process_query limit stem hash e query))"
proof -
  from assms have i: "list_all (\<lambda>(t, ps). list_all (fits max_digits) ps) (inverted_index e)"
    and p: "pidx_fits max_digits (positional_index e)"
    by (simp_all add: ints_fit_def)
  have "pidx_fits max_digits
          (fst (foldl (proximity_step s1 s2 k) (positional_index e, [])
                  (sorted_list_of_set (set (postings_of e s1) \<inter> set (postings_of e s2)))))"
    for s1 s2 k
    using p postings_fit [OF i] by (intro pidx_fits_proximity_fold) auto
  then show ?thesis
    using assms
    by (auto simp: process_query_def process_proximity_query_def ints_fit_def Let_def split_beta
          split: option.splits list.splits)
qed

lemma fits_load_doc_ids:
  "\<forall>d\<in>fst ` set acc. fits max_digits d \<Longrightarrow> load_doc_ids max_digits acc xs = Some dm \<Longrightarrow>
   \<forall>d\<in>fst ` set dm. fits max_digits d"
proof (induction max_digits acc xs rule: load_doc_ids.induct)
  case (1 max_digits acc)
  then show ?case by simp
next
  case (2 max_digits acc k info rest)
  from "2.prems"(2) obtain d where d: "python_int max_digits k = Some d"
    and r: "load_doc_ids max_digits (dict_set d (json_filename info) acc) rest = Some dm"
    by (auto split: option.splits)
  have "\<forall>d'\<in>fst ` set (dict_set d (json_filename info) acc). fits max_digits d'"
    using set_dict_set [of d "json_filename info" acc] "2.prems"(1) python_int_fits [OF d]
    by auto
  then show ?case using "2.IH" [OF d] r by blast
qed

lemma fits_load_inverted:
  "list_all (\<lambda>(t, ps). list_all (fits max_digits) ps) acc \<Longrightarrow>
   list_all (\<lambda>(term, info). list_all (fits max_digits) (postings info)) xs \<Longrightarrow>
   list_all (\<lambda>(t, ps). list_all (fits max_digits) ps)
     (foldl (\<lambda>d (term, info). dict_set term (postings info) d) acc xs)"
proof (induction xs arbitrary: acc)
  case Nil
  then show ?case by simp
next
  case (Cons x xs)
  obtain t info where x: "x = (t, info)" by (cases x)
  have "list_all (\<lambda>(t, ps). list_all (fits max_digits) ps) (dict_set t (postings info) acc)"
    unfolding list_all_iff
  proof (intro ballI)
    fix y
    assume "y \<in> set (dict_set t (postings info) acc)"
    with set_dict_set [of t "postings info" acc]
    have "y = (t, postings info) \<or> y \<in> set acc" by auto
    then show "case y of (t, ps) \<Rightarrow> \<forall>x\<in>set ps. fits max_digits x"
      using Cons.prems by (auto simp: list_all_iff x)
  qed
  then show ?case using Cons.prems(2) by (simp add: x Cons.IH)
qed

lemma pidx_fits_load_inner:
  "pidx_fits max_digits p \<Longrightarrow>
   list_all (\<lambda>(k, positions). list_all (fits max_digits) positions) xs \<Longrightarrow>
   pidx_fits max_digits (fst (load_positions_inner max_digits p t xs))"
proof (induction xs arbitrary: p)
  case Nil
  then show ?case by simp
next
  case (Cons x xs)
  obtain k positions where x: "x = (k, positions)" by (cases x)
  from Cons.prems(2) have f: "\<forall>y\<in>set positions. fits max_digits y"
    and r: "list_all (\<lambda>(k, positions). list_all (fits max_digits) positions) xs"
    by (simp_all add: x list_all_iff)
  show ?case
  proof (cases "python_int max_digits k")
    case None
    then show ?thesis using Cons.prems(1) by (simp add: x split_beta pidx_fits_getitem)
  next
    case (Some d)
    have "pidx_fits max_digits
            (dict_set t (dict_set d positions (fst (dd_getitem [] p t))) (snd (dd_getitem [] p t)))"
      using Cons.prems(1) python_int_fits [OF Some] f by (rule pidx_fits_store)
    then show ?thesis
      using Cons.IH [OF _ r] Some by (simp add: x split_beta)
  qed
qed

lemma pidx_fits_load:
  "pidx_fits max_digits p \<Longrightarrow>
   list_all (\<lambda>(term, inner). list_all (\<lambda>(k, positions). list_all (fits max_digits) positions) inner) xs \<Longrightarrow>
   pidx_fits max_digits (fst (load_positions max_digits p xs))"
proof (induction xs arbitrary: p)
  case Nil
  then show ?case by simp
next
  case (Cons x xs)
  obtain t ps where x: "x = (t, ps)" by (cases x)
  obtain p1 ok where r: "load_positions_inner max_digits p t ps = (p1, ok)"
    by (cases "load_positions_inner max_digits p t ps")
  from Cons.prems(2) have a: "list_all (\<lambda>(k, positions). list_all (fits max_digits) positions) ps"
    and b: "list_all (\<lambda>(term, inner).
                list_all (\<lambda>(k, positions). list_all (fits max_digits) positions) inner) xs"
    by (simp_all add: x)
  have p1: "pidx_fits max_digits p1"
    using pidx_fits_load_inner [OF Cons.prems(1) a, of t] r by simp
  show ?case
    using Cons.IH [OF p1 b] r p1 by (cases ok) (simp_all add: x)
qed

text \<open>Whether the load completes or fails on the way, the engine it leaves is within
  the bound.\<close>

lemma ints_fit_load:
  assumes "ints_fit max_digits e0" and "lists_fit max_digits data"
  shows "ints_fit max_digits
           (case load_indexes max_digits e0 data of Inl (err, e) \<Rightarrow> e | Inr e \<Rightarrow> e)"
proof (cases "load_doc_ids max_digits [] (document_mapping data)")
  case None
  then show ?thesis using assms(1) by (simp add: load_indexes_def)
next
  case (Some dm)
  have 1: "list_all (\<lambda>(d, filename). fits max_digits d) dm"
    using fits_load_doc_ids [OF _ Some] by (auto simp: list_all_iff)
  have 2: "list_all (\<lambda>(t, ps). list_all (fits max_digits) ps)
             (foldl (\<lambda>d (term, info). dict_set term (postings info) d) []
                (json_inverted_index data))"
    using assms(2) by (intro fits_load_inverted) (simp_all add: lists_fit_def)
  have 3: "pidx_fits max_digits (fst (load_positions max_digits [] (json_positional_index data)))"
    using assms(2) by (intro pidx_fits_load) (simp_all add: lists_fit_def pidx_fits_def)
  obtain pidx ok where r: "load_positions max_digits [] (json_positional_index data) = (pidx, ok)"
    by (cases "load_positions max_digits [] (json_positional_index data)")
  show ?thesis
    using 1 2 3 r by (cases ok) (simp_all add: load_indexes_def Some Let_def ints_fit_def)
qed

lemma length_str_nat_le: "n < 10 ^ k \<Longrightarrow> 0 < k \<Longrightarrow> length (str_nat n) \<le> k"
proof (induction n arbitrary: k rule: str_nat.induct)
  case (1 n)
  show ?case
  proof (cases "n < 10")
    case True
    then show ?thesis using "1.prems"(2) by (subst str_nat.simps) simp
  next
    case False
    obtain j where k: "k = Suc j" using "1.prems"(2) by (cases k) auto
    from "1.prems"(1) have d: "n div 10 < 10 ^ j" by (simp add: k less_mult_imp_div_less)
    have "0 < j" using False d by (cases j) auto
    with "1.IH" [OF False d] have "length (str_nat (n div 10)) \<le> j" by simp
    with False show ?thesis by (subst str_nat.simps) (simp add: k)
  qed
qed

text \<open>A size of at most \<open>10 ^ max_digits\<close>: every index below it is within the bound.\<close>

lemma index_fits: "max_digits = 0 \<or> N \<le> 10 ^ max_digits \<Longrightarrow> n < N \<Longrightarrow> fits max_digits (int n)"
proof (cases "max_digits = 0")
  case True
  then show ?thesis by (simp add: fits_none)
next
  case False
  assume "max_digits = 0 \<or> N \<le> 10 ^ max_digits" and "n < N"
  with False have "n < 10 ^ max_digits" by simp
  then have "length (str_nat n) \<le> max_digits" using False by (intro length_str_nat_le) simp_all
  then show ?thesis by (simp add: fits_nat over_limit_def)
qed

lemma pidx_fits_add_position:
  assumes "pidx_fits max_digits p" and "fits max_digits d" and "fits max_digits pos"
  shows "pidx_fits max_digits (add_position p t d pos)"
proof -
  let ?inner = "fst (dd_getitem [] p t)"
  let ?ps = "fst (dd_getitem [] ?inner d)"
  have i: "(d', ps') \<in> set ?inner \<Longrightarrow> fits max_digits d' \<and> (\<forall>x\<in>set ps'. fits max_digits x)"
    for d' ps'
    using assms(1) by (rule pidx_fits_getitem)
  have e: "?ps = (case map_of ?inner d of None \<Rightarrow> [] | Some v \<Rightarrow> v)"
    by (rule fst_dd_getitem)
  have ps: "\<forall>x\<in>set ?ps. fits max_digits x"
  proof (cases "map_of ?inner d")
    case None
    then show ?thesis unfolding e by simp
  next
    case (Some v)
    then have "(d, v) \<in> set ?inner" by (rule map_of_SomeD)
    then have "\<forall>x\<in>set v. fits max_digits x" using i by blast
    then show ?thesis unfolding e Some by simp
  qed
  have "add_position p t d pos =
          dict_set t (dict_set d (?ps @ [pos]) (snd (dd_getitem [] ?inner d)))
            (snd (dd_getitem [] p t))"
    by (simp add: add_position_def split_beta Let_def)
  moreover have "pidx_fits max_digits
      (dict_set t (dict_set d (?ps @ [pos]) (snd (dd_getitem [] ?inner d)))
         (snd (dd_getitem [] p t)))"
  proof (rule pidx_fits_set)
    show "pidx_fits max_digits (snd (dd_getitem [] p t))"
      using assms(1) by (rule pidx_fits_getitem)
  next
    fix d' ps'
    assume "(d', ps') \<in> set (dict_set d (?ps @ [pos]) (snd (dd_getitem [] ?inner d)))"
    with set_dict_set [of d "?ps @ [pos]" "snd (dd_getitem [] ?inner d)"]
    have "(d', ps') = (d, ?ps @ [pos]) \<or> (d', ps') \<in> set (snd (dd_getitem [] ?inner d))"
      by auto
    moreover have "(d', ps') \<in> set (snd (dd_getitem [] ?inner d)) \<Longrightarrow>
                     (d', ps') = (d, []) \<or> (d', ps') \<in> set ?inner"
      by (auto simp: dd_getitem_def split: option.splits)
    ultimately have "(d', ps') = (d, ?ps @ [pos]) \<or> (d', ps') = (d, []) \<or> (d', ps') \<in> set ?inner"
      by blast
    then show "fits max_digits d' \<and> (\<forall>x\<in>set ps'. fits max_digits x)"
      using assms(2,3) ps i by auto
  qed
  ultimately show ?thesis by simp
qed

lemma pidx_fits_fold_positions:
  "pidx_fits max_digits p \<Longrightarrow> fits max_digits d \<Longrightarrow> \<forall>pos\<in>snd ` set toks. fits max_digits pos \<Longrightarrow>
   pidx_fits max_digits (foldl (\<lambda>p (term, position). add_position p term d position) p toks)"
  by (induction toks arbitrary: p) (auto simp: pidx_fits_add_position)

lemma fits_add_posting:
  assumes "list_all (\<lambda>(t, ps). list_all (fits max_digits) ps) i" and "fits max_digits d"
  shows "list_all (\<lambda>(t, ps). list_all (fits max_digits) ps) (add_posting i t d)"
  unfolding list_all_iff
proof (intro ballI)
  fix y
  let ?ps = "fst (dd_getitem [] i t)"
  assume "y \<in> set (add_posting i t d)"
  then have "y \<in> set (dict_set t (?ps @ [d]) (snd (dd_getitem [] i t)))"
    by (simp add: add_posting_def split_beta Let_def)
  with set_dict_set [of t "?ps @ [d]" "snd (dd_getitem [] i t)"]
  have "y = (t, ?ps @ [d]) \<or> y \<in> set (snd (dd_getitem [] i t))" by auto
  moreover have "y \<in> set (snd (dd_getitem [] i t)) \<Longrightarrow> y = (t, []) \<or> y \<in> set i"
    by (auto simp: dd_getitem_def split: option.splits)
  moreover have ps: "\<forall>x\<in>set ?ps. fits max_digits x"
  proof (cases "map_of i t")
    case None
    then show ?thesis by (simp add: fst_dd_getitem)
  next
    case (Some v)
    then have "(t, v) \<in> set i" by (rule map_of_SomeD)
    with assms(1) have "\<forall>x\<in>set v. fits max_digits x" by (auto simp: list_all_iff)
    then show ?thesis by (simp add: fst_dd_getitem Some)
  qed
  ultimately consider "y = (t, ?ps @ [d])" | "y = (t, [])" | "y \<in> set i" by blast
  then show "case y of (t, ps) \<Rightarrow> \<forall>x\<in>set ps. fits max_digits x"
  proof cases
    case 1
    then show ?thesis using ps assms(2) by simp
  next
    case 2
    then show ?thesis by simp
  next
    case 3
    then show ?thesis using assms(1) by (auto simp: list_all_iff)
  qed
qed

lemma fits_fold_postings:
  "list_all (\<lambda>(t, ps). list_all (fits max_digits) ps) i \<Longrightarrow> fits max_digits d \<Longrightarrow>
   list_all (\<lambda>(t, ps). list_all (fits max_digits) ps) (foldl (\<lambda>i term. add_posting i term d) i ts)"
  by (induction ts arbitrary: i) (auto simp: fits_add_posting)

lemma preprocess_text_positions:
  "(s, pos) \<in> set (preprocess_text stem e text) \<Longrightarrow>
   \<exists>n < length (findall (lower text)). pos = int n"
  by (auto simp: preprocess_text_def in_set_enumerate_eq)

lemma ints_fit_index_document:
  assumes "ints_fit max_digits e" and "fits max_digits d"
    and "\<forall>n < length (findall (lower text)). fits max_digits (int n)"
  shows "ints_fit max_digits (index_document stem e d fn text)"
proof -
  have t: "\<forall>pos\<in>snd ` set (preprocess_text stem (e\<lparr>doc_ids := x\<rparr>) text). fits max_digits pos" for x
    using assms(3) preprocess_text_positions by fastforce
  have 1: "list_all (\<lambda>(d, filename). fits max_digits d) (dict_set d fn (doc_ids e))"
    using set_dict_set [of d fn "doc_ids e"] assms(1,2) by (auto simp: ints_fit_def list_all_iff)
  from assms(1) have i: "list_all (\<lambda>(t, ps). list_all (fits max_digits) ps) (inverted_index e)"
    and p: "pidx_fits max_digits (positional_index e)"
    by (simp_all add: ints_fit_def)
  show ?thesis
    using 1 t
    by (simp add: ints_fit_def index_document_def Let_def
          pidx_fits_fold_positions [OF p assms(2)] fits_fold_postings [OF i assms(2)])
qed

lemma indexed_docs_entry:
  "(d, fn, text) \<in> set (indexed_docs listing) \<Longrightarrow>
   \<exists>i < length listing. d = int i \<and> listing ! i = (fn, Some text)"
  by (auto simp: indexed_docs_def docs_of_entries_def in_set_enumerate_eq
        split: option.splits if_splits)

lemma ints_fit_run:
  "ints_fit max_digits e \<Longrightarrow>
   \<forall>(d, fn, text) \<in> set ds.
      fits max_digits d \<and> (\<forall>n < length (findall (lower text)). fits max_digits (int n)) \<Longrightarrow>
   ints_fit max_digits (foldl (index_doc stem) e ds)"
proof (induction ds arbitrary: e)
  case Nil
  then show ?case by simp
next
  case (Cons x ds)
  obtain d fn body where x: "x = (d, fn, body)" by (cases x)
  have "ints_fit max_digits (index_document stem e d fn body)"
    using Cons.prems by (intro ints_fit_index_document) (simp_all add: x)
  then show ?case
    using Cons.prems(2) by (simp add: x index_doc_simp Cons.IH)
qed

text \<open>A build over a listing of at most \<open>10 ^ max_digits\<close> entries whose texts have at
  most as many tokens keeps the engine within the bound.\<close>

lemma ints_fit_build:
  assumes "ints_fit max_digits e"
    and "max_digits = 0 \<or> length listing \<le> 10 ^ max_digits"
    and "\<forall>(fn, c) \<in> set listing. \<forall>text. c = Some text \<longrightarrow>
           max_digits = 0 \<or> length (findall (lower text)) \<le> 10 ^ max_digits"
  shows "ints_fit max_digits (fst (build_loop stem e listing))"
  unfolding fst_build_loop
proof (rule ints_fit_run [OF assms(1)], clarify)
  fix d fn body
  assume "(d, fn, body) \<in> set (indexed_docs listing)"
  then obtain i where i: "i < length listing" "d = int i" "listing ! i = (fn, Some body)"
    using indexed_docs_entry by blast
  then have "(fn, Some body) \<in> set listing" by (metis nth_mem)
  with assms(3) have s: "max_digits = 0 \<or> length (findall (lower body)) \<le> 10 ^ max_digits"
    by auto
  show "fits max_digits d \<and> (\<forall>n < length (findall (lower body)). fits max_digits (int n))"
    using index_fits [OF assms(2) i(1)] index_fits [OF s] by (simp add: i(2))
qed

subsection \<open>The engine of the next run\<close>

text \<open>
  The snapshot that a build from the empty indexes of the constructor saves is the
  file the next run finds: \<open>_build_indexes\<close> loads it, and the engine it gives has again
  an entry in the positional index for every document id of a posting list.
\<close>

lemma backed_reloaded:
  assumes "backed e" and "distinct (map fst (positional_index e))"
  shows "backed (e0\<lparr>doc_ids := dm, inverted_index := inverted_index e,
                     positional_index := filter (\<lambda>(t, inner). inner \<noteq> []) (positional_index e)\<rparr>)"
proof (rule backedI)
  fix t d
  let ?e = "e0\<lparr>doc_ids := dm, inverted_index := inverted_index e,
                 positional_index := filter (\<lambda>(t, inner). inner \<noteq> []) (positional_index e)\<rparr>"
  assume "d \<in> set (postings_of ?e t)"
  then have "d \<in> set (postings_of e t)" by (simp add: postings_of_def)
  then have "position_list (positional_index e) t d \<noteq> None"
    using assms(1) by (intro backed_present)
  then show "position_list (positional_index ?e) t d \<noteq> None"
    by (simp add: position_list_filter [OF assms(2)])
qed

lemma reload_backed:
  assumes "backed e" and "dict_ok e" and "ints_fit max_digits e"
  shows "\<exists>e'. load_indexes max_digits e0 (index_data now e) = Inr e' \<and> backed e'"
proof -
  from assms(2) have a: "distinct (map fst (positional_index e))"
    by (simp add: dict_ok_def)
  show ?thesis
    unfolding load_index_data [OF assms(2,3)]
    using backed_reloaded [OF assms(1) a] by blast
qed

end
